theory Spec2Isabelle
  imports Complex_Main "HOL-Library.Word" "HOL-Library.Sublist"
begin

section \<open>Data model of \<^verbatim>\<open>src/index.ts\<close>\<close>

text \<open>
  A JavaScript string is a sequence of UTF-16 code units; every offset of the program
  (\<^verbatim>\<open>start\<close>, \<^verbatim>\<open>end\<close>, \<^verbatim>\<open>startIndex\<close>, \<^verbatim>\<open>endIndex\<close>, \<^verbatim>\<open>length\<close>) counts code units.
  Offsets and token indices are non-negative integers far below \<open>2^53\<close>, so they are
  natural numbers here.
\<close>

type_synonym cu = "16 word"
type_synonym ustring = "cu list"

datatype ChangeType = Insert | Delete | Replace | SpellCorrection

record Position =
  startIndex :: nat
  endIndex :: nat

record TextDiff =
  oldText :: ustring
  position :: Position
  newText :: ustring
  changeType :: ChangeType

datatype Kind = Word | Sep

text \<open>The interface \<^verbatim>\<open>Token\<close>; the fields \<^verbatim>\<open>kind\<close>, \<^verbatim>\<open>value\<close>, \<^verbatim>\<open>start\<close>, \<^verbatim>\<open>end\<close>
  carry the prefix \<open>t\<close> (\<open>value\<close> and \<open>end\<close> are reserved words of the prover).\<close>

record Token =
  tkind :: Kind
  tvalue :: ustring
  tstart :: nat
  tend :: nat

text \<open>One element of the iterable returned by \<^verbatim>\<open>Intl.Segmenter.prototype.segment\<close>;
  \<^verbatim>\<open>isWordLike\<close> is optional in the type the program casts to.\<close>

record Segment =
  segment :: ustring
  index :: nat
  isWordLike :: "bool option"

record ChangeRange =
  oldTokStart :: nat
  oldTokEnd :: nat
  newTokStart :: nat
  newTokEnd :: nat

section \<open>Strings and arrays of the host language\<close>

text \<open>\<^verbatim>\<open>s.slice(a, b)\<close> and \<^verbatim>\<open>xs.slice(a, b)\<close> for non-negative integers: the elements from
  \<open>a\<close> up to, not including, \<open>b\<close>, both clamped to the length; empty when \<open>b \<le> a\<close>.\<close>

definition slice :: "'a list \<Rightarrow> nat \<Rightarrow> nat \<Rightarrow> 'a list" where
  "slice xs a b = take (b - a) (drop a xs)"

text \<open>\<^verbatim>\<open>xs[i]\<close> read as a value that is tested afterwards: \<^verbatim>\<open>undefined\<close> out of range.\<close>

definition js_get :: "'a list \<Rightarrow> nat \<Rightarrow> 'a option" where
  "js_get xs i = (if i < length xs then Some (xs ! i) else None)"

text \<open>\<^verbatim>\<open>xs[xs.length - 1]\<close>: \<^verbatim>\<open>undefined\<close> on the empty array (index \<open>-1\<close>).\<close>

definition js_last :: "'a list \<Rightarrow> 'a option" where
  "js_last xs = (if xs = [] then None else Some (xs ! (length xs - 1)))"

subsection \<open>Code points of a string under the \<^verbatim>\<open>u\<close> flag\<close>

definition isLead :: "cu \<Rightarrow> bool" where
  "isLead c = (0xD800 \<le> c \<and> c \<le> 0xDBFF)"

definition isTrail :: "cu \<Rightarrow> bool" where
  "isTrail c = (0xDC00 \<le> c \<and> c \<le> 0xDFFF)"

definition codePoint :: "cu \<Rightarrow> cu \<Rightarrow> nat" where
  "codePoint hi lold = 0x10000 + (unat hi - 0xD800) * 0x400 + (unat lold - 0xDC00)"

text \<open>A regular expression with the \<^verbatim>\<open>u\<close> flag reads a lead surrogate followed by a trail
  surrogate as one code point and every other code unit as a code point of its own.\<close>

fun codePoints :: "ustring \<Rightarrow> nat list" where
  "codePoints [] = []"
| "codePoints [c] = [unat c]"
| "codePoints (c # d # s) =
     (if isLead c \<and> isTrail d then codePoint c d # codePoints s
      else unat c # codePoints (d # s))"

text \<open>\<^verbatim>\<open>AdvanceStringIndex\<close>: the width in code units of the code point at the head.\<close>

fun headWidth :: "ustring \<Rightarrow> nat" where
  "headWidth (c # d # s) = (if isLead c \<and> isTrail d then 2 else 1)"
| "headWidth s = 1"

text \<open>The greedy match of \<^verbatim>\<open>[class]+\<close> at the head of a string: the number of code units
  of the longest prefix whose code points all satisfy \<open>p\<close> (0 when the match fails).\<close>

fun matchRun :: "(nat \<Rightarrow> bool) \<Rightarrow> ustring \<Rightarrow> nat" where
  "matchRun p [] = 0"
| "matchRun p [c] = (if p (unat c) then 1 else 0)"
| "matchRun p (c # d # s) =
     (if isLead c \<and> isTrail d
      then (if p (codePoint c d) then 2 + matchRun p s else 0)
      else (if p (unat c) then 1 + matchRun p (d # s) else 0))"

text \<open>\<^verbatim>\<open>/[\p{L}\p{N}\p{M}]/u.test(s)\<close>: some code point of \<open>s\<close> is a letter, number or mark.
  The Unicode property tables belong to the JavaScript engine; \<open>isLNM\<close> is the
  predicate "general category L, N or M" on code points.\<close>

definition testLNM :: "(nat \<Rightarrow> bool) \<Rightarrow> ustring \<Rightarrow> bool" where
  "testLNM isLNM s = list_ex isLNM (codePoints s)"

section \<open>The tokenizer\<close>

text \<open>\<^verbatim>\<open>normalize\<close>: \<^verbatim>\<open>input.normalize("NFC")\<close>. The normalisation algorithm belongs to the
  engine; \<open>nfc\<close> stands for it.\<close>

definition normalize :: "(ustring \<Rightarrow> ustring) \<Rightarrow> ustring \<Rightarrow> ustring" where
  "normalize nfc input = nfc input"

text \<open>\<^verbatim>\<open>WORD_REGEX.exec(s)\<close> with \<^verbatim>\<open>lastIndex = i\<close>, for the global expression
  \<^verbatim>\<open>/([\p{L}\p{N}\p{M}]+)|([^\p{L}\p{N}\p{M}]+)/gu\<close>: the search starts at \<open>i\<close>, tries the
  first alternative and then the second, and moves on by one code point when both fail.
  \<open>Some (index, length)\<close> is a match (\<^verbatim>\<open>lastIndex\<close> becomes \<open>index + length\<close>);
  \<open>None\<close> is \<^verbatim>\<open>null\<close> (\<^verbatim>\<open>lastIndex\<close> becomes 0).\<close>

function WORD_REGEX_exec :: "(nat \<Rightarrow> bool) \<Rightarrow> ustring \<Rightarrow> nat \<Rightarrow> (nat \<times> nat) option" where
  "WORD_REGEX_exec isLNM s i =
     (if length s \<le> i then None
      else if 0 < matchRun isLNM (drop i s) then Some (i, matchRun isLNM (drop i s))
      else if 0 < matchRun (\<lambda>c. \<not> isLNM c) (drop i s)
        then Some (i, matchRun (\<lambda>c. \<not> isLNM c) (drop i s))
      else WORD_REGEX_exec isLNM s (i + headWidth (drop i s)))"
  by pat_completeness auto
termination
proof (relation "measure (\<lambda>(isLNM, s, i). length s - i)")
  show "wf (measure (\<lambda>(isLNM, s, i). length s - i))" by simp
next
  fix isLNM :: "nat \<Rightarrow> bool" and s :: ustring and i :: nat
  assume "\<not> length s \<le> i"
  moreover have "0 < headWidth (drop i s)"
    by (cases "drop i s" rule: headWidth.cases) auto
  ultimately show "((isLNM, s, i + headWidth (drop i s)), (isLNM, s, i))
      \<in> measure (\<lambda>(isLNM, s, i). length s - i)"
    by simp
qed

lemma matchRun_le: "matchRun p s \<le> length s"
  by (induction p s rule: matchRun.induct) auto

lemma WORD_REGEX_exec_bounds:
  "WORD_REGEX_exec isLNM s i = Some (idx, len) \<Longrightarrow> i \<le> idx \<and> 0 < len \<and> idx + len \<le> length s"
proof (induction isLNM s i rule: WORD_REGEX_exec.induct)
  case (1 isLNM s i)
  have a: "matchRun isLNM (drop i s) \<le> length s - i"
    using matchRun_le [of isLNM "drop i s"] by simp
  have b: "matchRun (\<lambda>c. \<not> isLNM c) (drop i s) \<le> length s - i"
    using matchRun_le [of "\<lambda>c. \<not> isLNM c" "drop i s"] by simp
  show ?case
  proof (cases "length s \<le> i")
    case True
    with "1.prems" show ?thesis by simp
  next
    case False
    note ni = this
    show ?thesis
    proof (cases "0 < matchRun isLNM (drop i s)")
      case True
      with ni "1.prems" a show ?thesis by auto
    next
      case False
      note nw = this
      show ?thesis
      proof (cases "0 < matchRun (\<lambda>c. \<not> isLNM c) (drop i s)")
        case True
        with ni nw "1.prems" b show ?thesis by auto
      next
        case False
        with ni nw "1.prems" "1.IH" show ?thesis by auto
      qed
    qed
  qed
qed

text \<open>The fallback loop \<^verbatim>\<open>while ((match = WORD_REGEX.exec(normalized)) !== null)\<close>, from
  \<^verbatim>\<open>lastIndex\<close>; the tokens are listed in the order they are pushed.\<close>

function regexTokens :: "(nat \<Rightarrow> bool) \<Rightarrow> ustring \<Rightarrow> nat \<Rightarrow> Token list" where
  "regexTokens isLNM normalized lastIndex =
     (case WORD_REGEX_exec isLNM normalized lastIndex of
        None \<Rightarrow> []
      | Some (idx, len) \<Rightarrow>
          (let val = slice normalized idx (idx + len);
               start = idx;
               end = start + length val;
               isWord = testLNM isLNM val
           in \<lparr>tkind = (if isWord then Word else Sep), tvalue = val, tstart = start, tend = end\<rparr>
              # regexTokens isLNM normalized (idx + len)))"
  by pat_completeness auto
termination
proof (relation "measure (\<lambda>(isLNM, normalized, lastIndex). length normalized - lastIndex)")
  show "wf (measure (\<lambda>(isLNM, normalized, lastIndex). length normalized - lastIndex))" by simp
next
  fix isLNM :: "nat \<Rightarrow> bool" and normalized :: ustring and lastIndex idx len :: nat
    and x2 :: "nat \<times> nat"
  assume "WORD_REGEX_exec isLNM normalized lastIndex = Some x2" "(idx, len) = x2"
  then have "WORD_REGEX_exec isLNM normalized lastIndex = Some (idx, len)" by simp
  from WORD_REGEX_exec_bounds [OF this]
  show "((isLNM, normalized, idx + len), (isLNM, normalized, lastIndex))
      \<in> measure (\<lambda>(isLNM, normalized, lastIndex). length normalized - lastIndex)"
    by auto
qed

text \<open>The fallback loop with the state of the module-level expression made explicit: the
  loop is entered with some \<^verbatim>\<open>lastIndex\<close> and returns the tokens and the \<^verbatim>\<open>lastIndex\<close> it
  leaves behind.\<close>

function regexLoop :: "(nat \<Rightarrow> bool) \<Rightarrow> ustring \<Rightarrow> nat \<Rightarrow> Token list \<times> nat" where
  "regexLoop isLNM normalized lastIndex =
     (case WORD_REGEX_exec isLNM normalized lastIndex of
        None \<Rightarrow> ([], 0)
      | Some (idx, len) \<Rightarrow>
          (let val = slice normalized idx (idx + len);
               start = idx;
               end = start + length val;
               isWord = testLNM isLNM val;
               rest = regexLoop isLNM normalized (idx + len)
           in (\<lparr>tkind = (if isWord then Word else Sep), tvalue = val, tstart = start, tend = end\<rparr>
               # fst rest, snd rest)))"
  by pat_completeness auto
termination
proof (relation "measure (\<lambda>(isLNM, normalized, lastIndex). length normalized - lastIndex)")
  show "wf (measure (\<lambda>(isLNM, normalized, lastIndex). length normalized - lastIndex))" by simp
next
  fix isLNM :: "nat \<Rightarrow> bool" and normalized :: ustring and lastIndex idx len :: nat
    and x2 :: "nat \<times> nat" and xa :: ustring and xb xc :: nat and xd :: bool
  assume "WORD_REGEX_exec isLNM normalized lastIndex = Some x2" "(idx, len) = x2"
  then have "WORD_REGEX_exec isLNM normalized lastIndex = Some (idx, len)" by simp
  from WORD_REGEX_exec_bounds [OF this]
  show "((isLNM, normalized, idx + len), (isLNM, normalized, lastIndex))
      \<in> measure (\<lambda>(isLNM, normalized, lastIndex). length normalized - lastIndex)"
    by auto
qed

text \<open>The locale-aware loop \<^verbatim>\<open>for (const seg of segments)\<close> from \<^verbatim>\<open>cursor\<close>, with the
  separator synthesized before a segment that starts after the cursor and, after the
  last segment, the separator up to the end of the string.\<close>

fun segmentTokens :: "(nat \<Rightarrow> bool) \<Rightarrow> ustring \<Rightarrow> Segment list \<Rightarrow> nat \<Rightarrow> Token list" where
  "segmentTokens isLNM normalized [] cursor =
     (if cursor < length normalized
      then [\<lparr>tkind = Sep, tvalue = slice normalized cursor (length normalized),
             tstart = cursor, tend = length normalized\<rparr>]
      else [])"
| "segmentTokens isLNM normalized (seg # segments) cursor =
     (let idx = index seg;
          gap = (if idx > cursor
                 then [\<lparr>tkind = Sep, tvalue = slice normalized cursor idx,
                        tstart = cursor, tend = idx\<rparr>]
                 else []);
          isWord = (case isWordLike seg of Some w \<Rightarrow> w | None \<Rightarrow> testLNM isLNM (segment seg))
      in gap @
         \<lparr>tkind = (if isWord then Word else Sep), tvalue = segment seg,
          tstart = idx, tend = idx + length (segment seg)\<rparr>
         # segmentTokens isLNM normalized segments (idx + length (segment seg)))"

text \<open>\<^verbatim>\<open>tokenize\<close>. The capability \<^verbatim>\<open>Intl.Segmenter\<close> belongs to the engine:
  \<open>segmenter normalized = Some segments\<close> when it exists and
  \<^verbatim>\<open>Array.from(segmenter.segment(normalized))\<close> returns \<open>segments\<close>, and \<open>None\<close> when it is
  undefined or when constructing or running it throws (no token has been pushed at that
  point, so the fallback starts from the empty array). The module-level \<^verbatim>\<open>WORD_REGEX\<close>
  has \<^verbatim>\<open>lastIndex = 0\<close> whenever the fallback loop is entered: it is 0 initially and every
  run of the loop ends with the \<^verbatim>\<open>null\<close> result, which resets it (\<open>regexLoop\<close> above
  returns 0 as the second component, whatever it starts from).\<close>

definition tokenize ::
  "(ustring \<Rightarrow> ustring) \<Rightarrow> (nat \<Rightarrow> bool) \<Rightarrow> (ustring \<Rightarrow> Segment list option) \<Rightarrow> ustring \<Rightarrow> Token list" where
  "tokenize nfc isLNM segmenter text =
     (let normalized = normalize nfc text
      in case segmenter normalized of
           Some segments \<Rightarrow> segmentTokens isLNM normalized segments 0
         | None \<Rightarrow> regexTokens isLNM normalized 0)"

text \<open>\<^verbatim>\<open>extractWords\<close> (no other function of the module calls it).\<close>

definition extractWords :: "Token list \<Rightarrow> Token list" where
  "extractWords tokens = filter (\<lambda>t. tkind t = Word) tokens"

section \<open>The aligner\<close>

text \<open>The body of the inner loop of \<^verbatim>\<open>lcsIndicesTokens\<close>: the new value of \<^verbatim>\<open>dp[i][j]\<close>.\<close>

definition dpCell :: "Token list \<Rightarrow> Token list \<Rightarrow> nat list list \<Rightarrow> nat \<Rightarrow> nat \<Rightarrow> nat" where
  "dpCell a b dp i j =
     (if tvalue (a ! i) = tvalue (b ! j) then dp ! (i + 1) ! (j + 1) + 1
      else max (dp ! (i + 1) ! j) (dp ! i ! (j + 1)))"

text \<open>\<^verbatim>\<open>for (let j = m - 1; j >= 0; j--)\<close> for one \<open>i\<close>, and \<^verbatim>\<open>for (let i = n - 1; i >= 0; i--)\<close>
  on the table of zeros.\<close>

definition dpRow :: "Token list \<Rightarrow> Token list \<Rightarrow> nat list list \<Rightarrow> nat \<Rightarrow> nat list list" where
  "dpRow a b dp i =
     foldl (\<lambda>dp j. dp[i := (dp ! i)[j := dpCell a b dp i j]]) dp (rev [0..<length b])"

definition dpTable :: "Token list \<Rightarrow> Token list \<Rightarrow> nat list list" where
  "dpTable a b =
     foldl (dpRow a b) (replicate (length a + 1) (replicate (length b + 1) 0))
       (rev [0..<length a])"

text \<open>The reconstruction loop \<^verbatim>\<open>while (i < n && j < m)\<close>.\<close>

function lcsWalk ::
  "Token list \<Rightarrow> Token list \<Rightarrow> nat list list \<Rightarrow> nat \<Rightarrow> nat \<Rightarrow> (nat \<times> nat) list" where
  "lcsWalk a b dp i j =
     (if i < length a \<and> j < length b then
        (if tvalue (a ! i) = tvalue (b ! j) then (i, j) # lcsWalk a b dp (i + 1) (j + 1)
         else if dp ! (i + 1) ! j \<ge> dp ! i ! (j + 1) then lcsWalk a b dp (i + 1) j
         else lcsWalk a b dp i (j + 1))
      else [])"
  by pat_completeness auto
termination
  by (relation "measure (\<lambda>(a, b, dp, i, j). (length a - i) + (length b - j))") auto

definition lcsIndicesTokens :: "Token list \<Rightarrow> Token list \<Rightarrow> (nat \<times> nat) list" where
  "lcsIndicesTokens a b = lcsWalk a b (dpTable a b) 0 0"

section \<open>The classifier\<close>

text \<open>One pass of the outer loop of \<^verbatim>\<open>levenshtein\<close> on the two rows: \<^verbatim>\<open>curr[0] = i\<close>, the
  inner loop over \<open>j = 1..m\<close>, and the copy of \<^verbatim>\<open>curr\<close> into \<^verbatim>\<open>prev\<close>.\<close>

definition levRow :: "ustring \<Rightarrow> ustring \<Rightarrow> nat list \<times> nat list \<Rightarrow> nat \<Rightarrow> nat list \<times> nat list" where
  "levRow a b rows i =
     (let prev = fst rows;
          curr0 = (snd rows)[0 := i];
          ai = a ! (i - 1);
          curr = foldl (\<lambda>curr j.
                   let cost = (if ai = b ! (j - 1) then 0 else 1)
                   in curr[j := min (min (prev ! j + 1) (curr ! (j - 1) + 1)) (prev ! (j - 1) + cost)])
                 curr0 [1..<length b + 1]
      in (foldl (\<lambda>prev j. prev[j := curr ! j]) prev [0..<length b + 1], curr))"

text \<open>\<^verbatim>\<open>levenshtein\<close>. The two arrays are created with \<^verbatim>\<open>new Array(m + 1)\<close>, whose cells
  hold no number yet; they stand as 0 here. The result does not depend on that choice
  (\<open>levenshtein_fresh_arrays\<close> below): each cell is written before it is read.\<close>

definition levenshtein :: "ustring \<Rightarrow> ustring \<Rightarrow> nat" where
  "levenshtein a b =
     (if a = b then 0
      else if length a = 0 then length b
      else if length b = 0 then length a
      else
        (let prev = foldl (\<lambda>prev j. prev[j := j]) (replicate (length b + 1) 0) [0..<length b + 1];
             curr = replicate (length b + 1) 0
         in fst (foldl (levRow a b) (prev, curr) [1..<length a + 1]) ! length b))"

text \<open>\<^verbatim>\<open>Math.ceil(0.3 * maxLen)\<close>. The double nearest to 0.3 lies below it by a relative
  \<open>3.7e-17\<close>, less than half a unit in the last place, so for a multiple of 10 the
  product rounds to the integer \<open>3 * maxLen / 10\<close> itself, and for any other length below
  \<open>2^50\<close> the product stays at least 0.09 away from an integer: the result is the
  ceiling of the exact quotient for every string length.\<close>

definition ceil03 :: "nat \<Rightarrow> nat" where
  "ceil03 maxLen = (3 * maxLen + 9) div 10"

definition classifyChange :: "Token list \<Rightarrow> Token list \<Rightarrow> ustring \<Rightarrow> ustring \<Rightarrow> ChangeType" where
  "classifyChange oldTokSlice newTokSlice oldSlice newSlice =
     (if length oldSlice = 0 \<and> length newSlice > 0 then Insert
      else if length newSlice = 0 \<and> length oldSlice > 0 then Delete
      else
        (let oldWords = filter (\<lambda>t. tkind t = Word) oldTokSlice;
             newWords = filter (\<lambda>t. tkind t = Word) newTokSlice
         in if length oldWords = 1 \<and> length newWords = 1 \<and>
               (let d = levenshtein (tvalue (oldWords ! 0)) (tvalue (newWords ! 0));
                    maxLen = max (length (tvalue (oldWords ! 0))) (length (tvalue (newWords ! 0)))
                in d > 0 \<and> d \<le> max 2 (ceil03 maxLen))
            then SpellCorrection
            else Replace))"

section \<open>The diff builder\<close>

definition sliceFromOriginal :: "ustring \<Rightarrow> nat \<Rightarrow> nat \<Rightarrow> ustring" where
  "sliceFromOriginal original start end = slice original start end"

text \<open>The range extraction loop \<^verbatim>\<open>for (let k = 0; k <= lcs.length; k++)\<close> with its
  variables \<^verbatim>\<open>k\<close>, \<^verbatim>\<open>prevOld\<close>, \<^verbatim>\<open>prevNew\<close>; the ranges are listed in the order they are
  pushed. \<^verbatim>\<open>lcs[k]\<close> is \<^verbatim>\<open>undefined\<close> in the last pass, which the loop tests.\<close>

function changesLoop ::
  "(nat \<times> nat) list \<Rightarrow> nat \<Rightarrow> nat \<Rightarrow> nat \<Rightarrow> nat \<Rightarrow> nat \<Rightarrow> ChangeRange list" where
  "changesLoop lcs oldLen newLen k prevOld prevNew =
     (if k \<le> length lcs then
        (let pair = js_get lcs k;
             nextOld = (case pair of Some p \<Rightarrow> fst p | None \<Rightarrow> oldLen);
             nextNew = (case pair of Some p \<Rightarrow> snd p | None \<Rightarrow> newLen)
         in (if nextOld > prevOld \<or> nextNew > prevNew
             then [\<lparr>oldTokStart = prevOld, oldTokEnd = nextOld,
                    newTokStart = prevNew, newTokEnd = nextNew\<rparr>]
             else [])
            @ changesLoop lcs oldLen newLen (k + 1) (nextOld + 1) (nextNew + 1))
      else [])"
  by pat_completeness auto
termination
  by (relation "measure (\<lambda>(lcs, oldLen, newLen, k, prevOld, prevNew). length lcs + 1 - k)") auto

text \<open>\<^verbatim>\<open>oldBetweenStart <= oldBetweenEnd ? tokens.slice(...).every((t) => t.kind === "sep") : true\<close>\<close>

definition onlySepsBetween :: "Token list \<Rightarrow> nat \<Rightarrow> nat \<Rightarrow> bool" where
  "onlySepsBetween tokens betweenStart betweenEnd =
     (if betweenStart \<le> betweenEnd
      then list_all (\<lambda>t. tkind t = Sep) (slice tokens betweenStart betweenEnd)
      else True)"

text \<open>The merging loop \<^verbatim>\<open>for (const ch of changes)\<close> on the array \<^verbatim>\<open>mergedChanges\<close>, whose
  last element is updated in place when the current range is merged into it.\<close>

fun mergeLoop ::
  "Token list \<Rightarrow> Token list \<Rightarrow> ChangeRange list \<Rightarrow> ChangeRange list \<Rightarrow> ChangeRange list" where
  "mergeLoop oldTokens newTokens mergedChanges [] = mergedChanges"
| "mergeLoop oldTokens newTokens mergedChanges (ch # changes) =
     (case js_last mergedChanges of
        Some last' \<Rightarrow>
          (if onlySepsBetween oldTokens (oldTokEnd last') (oldTokStart ch) \<and>
              onlySepsBetween newTokens (newTokEnd last') (newTokStart ch)
           then mergeLoop oldTokens newTokens
                  (butlast mergedChanges
                   @ [last'\<lparr>oldTokEnd := oldTokEnd ch, newTokEnd := newTokEnd ch\<rparr>])
                  changes
           else mergeLoop oldTokens newTokens (mergedChanges @ [ch]) changes)
      | None \<Rightarrow> mergeLoop oldTokens newTokens (mergedChanges @ [ch]) changes)"

text \<open>The body of the last loop for one range: \<open>None\<close> is the \<^verbatim>\<open>continue\<close> on equal
  slices, \<open>Some d\<close> the diff that is pushed.\<close>

definition buildDiff ::
  "ustring \<Rightarrow> ustring \<Rightarrow> Token list \<Rightarrow> Token list \<Rightarrow> ChangeRange \<Rightarrow> TextDiff option" where
  "buildDiff oldText' newText' oldTokens newTokens ch =
     (let hasOld = oldTokEnd ch > oldTokStart ch;
          hasNew = newTokEnd ch > newTokStart ch;
          oldStart = (if hasOld then tstart (oldTokens ! oldTokStart ch)
                      else if oldTokStart ch \<ge> 1 then tend (oldTokens ! (oldTokStart ch - 1))
                      else 0);
          oldEnd = (if hasOld then tend (oldTokens ! (oldTokEnd ch - 1)) else oldStart);
          oldSlice = sliceFromOriginal oldText' oldStart oldEnd;
          newSlice = (if hasNew
                      then sliceFromOriginal newText' (tstart (newTokens ! newTokStart ch))
                             (tend (newTokens ! (newTokEnd ch - 1)))
                      else [])
      in if oldSlice = newSlice then None
         else Some \<lparr>oldText = oldSlice,
                    position = \<lparr>startIndex = oldStart, endIndex = oldEnd\<rparr>,
                    newText = newSlice,
                    changeType = classifyChange
                      (slice oldTokens (oldTokStart ch) (oldTokEnd ch))
                      (slice newTokens (newTokStart ch) (newTokEnd ch)) oldSlice newSlice\<rparr>)"

fun diffLoop ::
  "ustring \<Rightarrow> ustring \<Rightarrow> Token list \<Rightarrow> Token list \<Rightarrow> ChangeRange list \<Rightarrow> TextDiff list" where
  "diffLoop oldText' newText' oldTokens newTokens [] = []"
| "diffLoop oldText' newText' oldTokens newTokens (ch # mergedChanges) =
     (case buildDiff oldText' newText' oldTokens newTokens ch of
        None \<Rightarrow> diffLoop oldText' newText' oldTokens newTokens mergedChanges
      | Some d \<Rightarrow> d # diffLoop oldText' newText' oldTokens newTokens mergedChanges)"

text \<open>The part of \<^verbatim>\<open>getTextDiffs\<close> after tokenization.\<close>

definition mergedChangesOf :: "Token list \<Rightarrow> Token list \<Rightarrow> ChangeRange list" where
  "mergedChangesOf oldTokens newTokens =
     (let lcs = lcsIndicesTokens oldTokens newTokens;
          changes = changesLoop lcs (length oldTokens) (length newTokens) 0 0 0
      in mergeLoop oldTokens newTokens [] changes)"

definition getTextDiffs ::
  "(ustring \<Rightarrow> ustring) \<Rightarrow> (nat \<Rightarrow> bool) \<Rightarrow> (ustring \<Rightarrow> Segment list option)
     \<Rightarrow> ustring \<Rightarrow> ustring \<Rightarrow> TextDiff list" where
  "getTextDiffs nfc isLNM segmenter oldTextInput newTextInput =
     (let oldText' = normalize nfc oldTextInput;
          newText' = normalize nfc newTextInput
      in if oldText' = newText' then []
         else
           (let oldTokens = tokenize nfc isLNM segmenter oldText';
                newTokens = tokenize nfc isLNM segmenter newText'
            in diffLoop oldText' newText' oldTokens newTokens
                 (mergedChangesOf oldTokens newTokens)))"

text \<open>A string literal of the source, as code units (the literals used here are ASCII).\<close>

definition ascii :: "string \<Rightarrow> ustring" where
  "ascii s = map of_char s"

declare regexTokens.simps [simp del] regexLoop.simps [simp del]
  WORD_REGEX_exec.simps [simp del]
declare lcsWalk.simps [simp del] changesLoop.simps [simp del]

section \<open>The program with its array accesses checked\<close>

text \<open>
  A second reading of the same code in which every indexed access can fail. \<open>TypeError\<close>
  is what the engine raises when a property of \<^verbatim>\<open>undefined\<close> is read (\<^verbatim>\<open>a[i].value\<close>,
  \<^verbatim>\<open>dp[i + 1][j]\<close> with no such element or row). \<open>OutOfBounds\<close> marks an access outside an
  array or a string that the engine would let pass (reading \<^verbatim>\<open>undefined\<close> or \<^verbatim>\<open>NaN\<close>,
  growing the array on a write, clamping a slice).
\<close>

datatype error = TypeError | OutOfBounds

type_synonym 'a checked = "error + 'a"

definition andThen :: "'a checked \<Rightarrow> ('a \<Rightarrow> 'b checked) \<Rightarrow> 'b checked" where
  "andThen m f = (case m of Inl e \<Rightarrow> Inl e | Inr x \<Rightarrow> f x)"

fun foldChecked :: "('s \<Rightarrow> 'x \<Rightarrow> 's checked) \<Rightarrow> 's \<Rightarrow> 'x list \<Rightarrow> 's checked" where
  "foldChecked f s [] = Inr s"
| "foldChecked f s (x # xs) = andThen (f s x) (\<lambda>s'. foldChecked f s' xs)"

text \<open>\<^verbatim>\<open>xs[i].field\<close> and \<^verbatim>\<open>dp[i][...]\<close>: the element must exist.\<close>

definition elementAt :: "'a list \<Rightarrow> nat \<Rightarrow> 'a checked" where
  "elementAt xs i = (if i < length xs then Inr (xs ! i) else Inl TypeError)"

text \<open>\<^verbatim>\<open>row[j]\<close> read as a number, \<^verbatim>\<open>row[j] = v\<close>, and \<^verbatim>\<open>s.charCodeAt(i)\<close>.\<close>

definition numberAt :: "'a list \<Rightarrow> nat \<Rightarrow> 'a checked" where
  "numberAt xs j = (if j < length xs then Inr (xs ! j) else Inl OutOfBounds)"

definition storeAt :: "'a list \<Rightarrow> nat \<Rightarrow> 'a \<Rightarrow> 'a list checked" where
  "storeAt xs j v = (if j < length xs then Inr (xs[j := v]) else Inl OutOfBounds)"

text \<open>\<^verbatim>\<open>xs.slice(a, b)\<close> with both ends inside the array or string.\<close>

definition sliceChecked :: "'a list \<Rightarrow> nat \<Rightarrow> nat \<Rightarrow> 'a list checked" where
  "sliceChecked xs a b = (if a \<le> b \<and> b \<le> length xs then Inr (slice xs a b) else Inl OutOfBounds)"

text \<open>The two reads whose \<^verbatim>\<open>undefined\<close> result the code tests: \<^verbatim>\<open>lcs[k]\<close> and
  \<^verbatim>\<open>mergedChanges[mergedChanges.length - 1]\<close>. With \<open>strict\<close> they count as violations
  like any other read outside the array.\<close>

definition testedAt :: "bool \<Rightarrow> 'a list \<Rightarrow> nat \<Rightarrow> 'a option checked" where
  "testedAt strict xs i =
     (if i < length xs then Inr (Some (xs ! i))
      else if strict then Inl OutOfBounds else Inr None)"

definition testedLast :: "bool \<Rightarrow> 'a list \<Rightarrow> 'a option checked" where
  "testedLast strict xs =
     (if xs \<noteq> [] then Inr (Some (xs ! (length xs - 1)))
      else if strict then Inl OutOfBounds else Inr None)"

text \<open>The fallback loop, checked: \<^verbatim>\<open>match[0]\<close> is the text of the string from \<^verbatim>\<open>match.index\<close>
  on, and the match has to lie inside the string.\<close>

function regexTokensChecked :: "(nat \<Rightarrow> bool) \<Rightarrow> ustring \<Rightarrow> nat \<Rightarrow> Token list checked" where
  "regexTokensChecked isLNM normalized lastIndex =
     (case WORD_REGEX_exec isLNM normalized lastIndex of
        None \<Rightarrow> Inr []
      | Some (idx, len) \<Rightarrow>
          andThen (sliceChecked normalized idx (idx + len)) (\<lambda>val.
            let start = idx;
                end = start + length val;
                isWord = testLNM isLNM val
            in andThen (regexTokensChecked isLNM normalized (idx + len)) (\<lambda>rest.
                 Inr (\<lparr>tkind = (if isWord then Word else Sep), tvalue = val,
                        tstart = start, tend = end\<rparr> # rest))))"
  by pat_completeness auto
termination
proof (relation "measure (\<lambda>(isLNM, normalized, lastIndex). length normalized - lastIndex)")
  show "wf (measure (\<lambda>(isLNM, normalized, lastIndex). length normalized - lastIndex))" by simp
next
  fix isLNM :: "nat \<Rightarrow> bool" and normalized :: ustring and lastIndex idx len :: nat
    and x2 :: "nat \<times> nat"
  assume "WORD_REGEX_exec isLNM normalized lastIndex = Some x2" "(idx, len) = x2"
  then have "WORD_REGEX_exec isLNM normalized lastIndex = Some (idx, len)" by simp
  from WORD_REGEX_exec_bounds [OF this]
  show "((isLNM, normalized, idx + len), (isLNM, normalized, lastIndex))
      \<in> measure (\<lambda>(isLNM, normalized, lastIndex). length normalized - lastIndex)"
    by auto
qed

declare regexTokensChecked.simps [simp del]

text \<open>The locale-aware loop, checked: \<^verbatim>\<open>normalized.slice(cursor, index)\<close> before a segment
  and \<^verbatim>\<open>normalized.slice(cursor)\<close> after the last one have to lie inside the string. A
  slice never throws, so nothing here reaches the \<^verbatim>\<open>catch\<close>.\<close>

fun segmentTokensChecked ::
  "(nat \<Rightarrow> bool) \<Rightarrow> ustring \<Rightarrow> Segment list \<Rightarrow> nat \<Rightarrow> Token list checked" where
  "segmentTokensChecked isLNM normalized [] cursor =
     (if cursor < length normalized
      then andThen (sliceChecked normalized cursor (length normalized)) (\<lambda>val.
             Inr [\<lparr>tkind = Sep, tvalue = val, tstart = cursor, tend = length normalized\<rparr>])
      else Inr [])"
| "segmentTokensChecked isLNM normalized (seg # segments) cursor =
     (let idx = index seg
      in andThen
           (if idx > cursor
            then andThen (sliceChecked normalized cursor idx) (\<lambda>val.
                   Inr [\<lparr>tkind = Sep, tvalue = val, tstart = cursor, tend = idx\<rparr>])
            else Inr []) (\<lambda>gap.
         let isWord = (case isWordLike seg of Some w \<Rightarrow> w
                       | None \<Rightarrow> testLNM isLNM (segment seg))
         in andThen (segmentTokensChecked isLNM normalized segments (idx + length (segment seg)))
              (\<lambda>rest.
                Inr (gap @
                     \<lparr>tkind = (if isWord then Word else Sep), tvalue = segment seg,
                      tstart = idx, tend = idx + length (segment seg)\<rparr> # rest))))"

definition tokenizeChecked ::
  "(ustring \<Rightarrow> ustring) \<Rightarrow> (nat \<Rightarrow> bool) \<Rightarrow> (ustring \<Rightarrow> Segment list option) \<Rightarrow> ustring
     \<Rightarrow> Token list checked" where
  "tokenizeChecked nfc isLNM segmenter text =
     (let normalized = normalize nfc text
      in case segmenter normalized of
           Some segments \<Rightarrow> segmentTokensChecked isLNM normalized segments 0
         | None \<Rightarrow> regexTokensChecked isLNM normalized 0)"

definition dpCellChecked ::
  "Token list \<Rightarrow> Token list \<Rightarrow> nat list list \<Rightarrow> nat \<Rightarrow> nat \<Rightarrow> nat checked" where
  "dpCellChecked a b dp i j =
     andThen (elementAt a i) (\<lambda>ai.
     andThen (elementAt b j) (\<lambda>bj.
       if tvalue ai = tvalue bj
       then andThen (elementAt dp (i + 1)) (\<lambda>below.
            andThen (numberAt below (j + 1)) (\<lambda>v. Inr (v + 1)))
       else andThen (elementAt dp (i + 1)) (\<lambda>below.
            andThen (numberAt below j) (\<lambda>x.
            andThen (elementAt dp i) (\<lambda>row.
            andThen (numberAt row (j + 1)) (\<lambda>y. Inr (max x y)))))))"

definition dpRowChecked ::
  "Token list \<Rightarrow> Token list \<Rightarrow> nat list list \<Rightarrow> nat \<Rightarrow> nat list list checked" where
  "dpRowChecked a b dp i =
     foldChecked (\<lambda>dp j.
         andThen (dpCellChecked a b dp i j) (\<lambda>v.
         andThen (elementAt dp i) (\<lambda>row.
         andThen (storeAt row j v) (\<lambda>row'. Inr (dp[i := row'])))))
       dp (rev [0..<length b])"

definition dpTableChecked :: "Token list \<Rightarrow> Token list \<Rightarrow> nat list list checked" where
  "dpTableChecked a b =
     foldChecked (dpRowChecked a b) (replicate (length a + 1) (replicate (length b + 1) 0))
       (rev [0..<length a])"

function lcsWalkChecked ::
  "Token list \<Rightarrow> Token list \<Rightarrow> nat list list \<Rightarrow> nat \<Rightarrow> nat \<Rightarrow> (nat \<times> nat) list checked" where
  "lcsWalkChecked a b dp i j =
     (if i < length a \<and> j < length b then
        andThen (elementAt a i) (\<lambda>ai.
        andThen (elementAt b j) (\<lambda>bj.
          if tvalue ai = tvalue bj
          then andThen (lcsWalkChecked a b dp (i + 1) (j + 1)) (\<lambda>pairs. Inr ((i, j) # pairs))
          else andThen (elementAt dp (i + 1)) (\<lambda>below.
               andThen (numberAt below j) (\<lambda>x.
               andThen (elementAt dp i) (\<lambda>row.
               andThen (numberAt row (j + 1)) (\<lambda>y.
                 if x \<ge> y then lcsWalkChecked a b dp (i + 1) j
                 else lcsWalkChecked a b dp i (j + 1)))))))
      else Inr [])"
  by pat_completeness auto
termination
  by (relation "measure (\<lambda>(a, b, dp, i, j). (length a - i) + (length b - j))") auto

declare lcsWalkChecked.simps [simp del]

definition lcsIndicesTokensChecked :: "Token list \<Rightarrow> Token list \<Rightarrow> (nat \<times> nat) list checked" where
  "lcsIndicesTokensChecked a b = andThen (dpTableChecked a b) (\<lambda>dp. lcsWalkChecked a b dp 0 0)"

definition levRowChecked ::
  "ustring \<Rightarrow> ustring \<Rightarrow> nat list \<times> nat list \<Rightarrow> nat \<Rightarrow> (nat list \<times> nat list) checked" where
  "levRowChecked a b rows i =
     andThen (storeAt (snd rows) 0 i) (\<lambda>curr0.
     andThen (numberAt a (i - 1)) (\<lambda>ai.
     andThen (foldChecked (\<lambda>curr j.
                andThen (numberAt b (j - 1)) (\<lambda>bj.
                andThen (numberAt (fst rows) j) (\<lambda>up.
                andThen (numberAt curr (j - 1)) (\<lambda>left.
                andThen (numberAt (fst rows) (j - 1)) (\<lambda>diag.
                  storeAt curr j
                    (min (min (up + 1) (left + 1)) (diag + (if ai = bj then 0 else 1))))))))
              curr0 [1..<length b + 1]) (\<lambda>curr.
     andThen (foldChecked (\<lambda>prev j. andThen (numberAt curr j) (\<lambda>v. storeAt prev j v))
              (fst rows) [0..<length b + 1]) (\<lambda>prev.
       Inr (prev, curr)))))"

definition levenshteinChecked :: "ustring \<Rightarrow> ustring \<Rightarrow> nat checked" where
  "levenshteinChecked a b =
     (if a = b then Inr 0
      else if length a = 0 then Inr (length b)
      else if length b = 0 then Inr (length a)
      else
        andThen (foldChecked (\<lambda>prev j. storeAt prev j j) (replicate (length b + 1) 0)
                  [0..<length b + 1]) (\<lambda>prev.
        andThen (foldChecked (levRowChecked a b) (prev, replicate (length b + 1) 0)
                  [1..<length a + 1]) (\<lambda>rows.
          numberAt (fst rows) (length b))))"

definition classifyChangeChecked ::
  "Token list \<Rightarrow> Token list \<Rightarrow> ustring \<Rightarrow> ustring \<Rightarrow> ChangeType checked" where
  "classifyChangeChecked oldTokSlice newTokSlice oldSlice newSlice =
     (if length oldSlice = 0 \<and> length newSlice > 0 then Inr Insert
      else if length newSlice = 0 \<and> length oldSlice > 0 then Inr Delete
      else
        (let oldWords = filter (\<lambda>t. tkind t = Word) oldTokSlice;
             newWords = filter (\<lambda>t. tkind t = Word) newTokSlice
         in if length oldWords = 1 \<and> length newWords = 1
            then andThen (elementAt oldWords 0) (\<lambda>ow.
                 andThen (elementAt newWords 0) (\<lambda>nw.
                 andThen (levenshteinChecked (tvalue ow) (tvalue nw)) (\<lambda>d.
                   let maxLen = max (length (tvalue ow)) (length (tvalue nw))
                   in if d > 0 \<and> d \<le> max 2 (ceil03 maxLen) then Inr SpellCorrection
                      else Inr Replace)))
            else Inr Replace))"

function changesLoopChecked ::
  "bool \<Rightarrow> (nat \<times> nat) list \<Rightarrow> nat \<Rightarrow> nat \<Rightarrow> nat \<Rightarrow> nat \<Rightarrow> nat \<Rightarrow> ChangeRange list checked" where
  "changesLoopChecked strict lcs oldLen newLen k prevOld prevNew =
     (if k \<le> length lcs then
        andThen (testedAt strict lcs k) (\<lambda>pair.
          let nextOld = (case pair of Some p \<Rightarrow> fst p | None \<Rightarrow> oldLen);
              nextNew = (case pair of Some p \<Rightarrow> snd p | None \<Rightarrow> newLen)
          in andThen (changesLoopChecked strict lcs oldLen newLen (k + 1) (nextOld + 1) (nextNew + 1))
               (\<lambda>rest. Inr ((if nextOld > prevOld \<or> nextNew > prevNew
                              then [\<lparr>oldTokStart = prevOld, oldTokEnd = nextOld,
                                     newTokStart = prevNew, newTokEnd = nextNew\<rparr>]
                              else []) @ rest)))
      else Inr [])"
  by pat_completeness auto
termination
  by (relation "measure (\<lambda>(strict, lcs, oldLen, newLen, k, prevOld, prevNew). length lcs + 1 - k)")
     auto

declare changesLoopChecked.simps [simp del]

definition onlySepsBetweenChecked :: "Token list \<Rightarrow> nat \<Rightarrow> nat \<Rightarrow> bool checked" where
  "onlySepsBetweenChecked tokens betweenStart betweenEnd =
     (if betweenStart \<le> betweenEnd
      then andThen (sliceChecked tokens betweenStart betweenEnd) (\<lambda>between.
             Inr (list_all (\<lambda>t. tkind t = Sep) between))
      else Inr True)"

fun mergeLoopChecked ::
  "bool \<Rightarrow> Token list \<Rightarrow> Token list \<Rightarrow> ChangeRange list \<Rightarrow> ChangeRange list
     \<Rightarrow> ChangeRange list checked" where
  "mergeLoopChecked strict oldTokens newTokens mergedChanges [] = Inr mergedChanges"
| "mergeLoopChecked strict oldTokens newTokens mergedChanges (ch # changes) =
     andThen (testedLast strict mergedChanges) (\<lambda>lastOpt.
       case lastOpt of
         Some last' \<Rightarrow>
           andThen (onlySepsBetweenChecked oldTokens (oldTokEnd last') (oldTokStart ch)) (\<lambda>onlyOld.
           andThen (onlySepsBetweenChecked newTokens (newTokEnd last') (newTokStart ch)) (\<lambda>onlyNew.
             if onlyOld \<and> onlyNew
             then mergeLoopChecked strict oldTokens newTokens
                    (butlast mergedChanges
                     @ [last'\<lparr>oldTokEnd := oldTokEnd ch, newTokEnd := newTokEnd ch\<rparr>])
                    changes
             else mergeLoopChecked strict oldTokens newTokens (mergedChanges @ [ch]) changes))
       | None \<Rightarrow> mergeLoopChecked strict oldTokens newTokens (mergedChanges @ [ch]) changes)"

definition buildDiffChecked ::
  "ustring \<Rightarrow> ustring \<Rightarrow> Token list \<Rightarrow> Token list \<Rightarrow> ChangeRange \<Rightarrow> TextDiff option checked" where
  "buildDiffChecked oldText' newText' oldTokens newTokens ch =
     (let hasOld = oldTokEnd ch > oldTokStart ch;
          hasNew = newTokEnd ch > newTokStart ch
      in andThen
           (if hasOld
            then andThen (elementAt oldTokens (oldTokStart ch)) (\<lambda>first.
                 andThen (elementAt oldTokens (oldTokEnd ch - 1)) (\<lambda>final.
                   Inr (tstart first, tend final)))
            else if oldTokStart ch \<ge> 1
              then andThen (elementAt oldTokens (oldTokStart ch - 1)) (\<lambda>left.
                     Inr (tend left, tend left))
            else Inr (0, 0)) (\<lambda>(oldStart, oldEnd).
         andThen (sliceChecked oldText' oldStart oldEnd) (\<lambda>oldSlice.
         andThen
           (if hasNew
            then andThen (elementAt newTokens (newTokStart ch)) (\<lambda>first.
                 andThen (elementAt newTokens (newTokEnd ch - 1)) (\<lambda>final.
                   sliceChecked newText' (tstart first) (tend final)))
            else Inr []) (\<lambda>newSlice.
           if oldSlice = newSlice then Inr None
           else andThen (sliceChecked oldTokens (oldTokStart ch) (oldTokEnd ch)) (\<lambda>oldTokSlice.
                andThen (sliceChecked newTokens (newTokStart ch) (newTokEnd ch)) (\<lambda>newTokSlice.
                andThen (classifyChangeChecked oldTokSlice newTokSlice oldSlice newSlice)
                  (\<lambda>changeType.
                  Inr (Some \<lparr>oldText = oldSlice,
                             position = \<lparr>startIndex = oldStart, endIndex = oldEnd\<rparr>,
                             newText = newSlice,
                             changeType = changeType\<rparr>))))))))"

fun diffLoopChecked ::
  "ustring \<Rightarrow> ustring \<Rightarrow> Token list \<Rightarrow> Token list \<Rightarrow> ChangeRange list \<Rightarrow> TextDiff list checked" where
  "diffLoopChecked oldText' newText' oldTokens newTokens [] = Inr []"
| "diffLoopChecked oldText' newText' oldTokens newTokens (ch # mergedChanges) =
     andThen (buildDiffChecked oldText' newText' oldTokens newTokens ch) (\<lambda>built.
     andThen (diffLoopChecked oldText' newText' oldTokens newTokens mergedChanges) (\<lambda>diffs.
       Inr (case built of None \<Rightarrow> diffs | Some d \<Rightarrow> d # diffs)))"

text \<open>\<^verbatim>\<open>getTextDiffs\<close>, checked.\<close>

definition getTextDiffsChecked ::
  "bool \<Rightarrow> (ustring \<Rightarrow> ustring) \<Rightarrow> (nat \<Rightarrow> bool) \<Rightarrow> (ustring \<Rightarrow> Segment list option)
     \<Rightarrow> ustring \<Rightarrow> ustring \<Rightarrow> TextDiff list checked" where
  "getTextDiffsChecked strict nfc isLNM segmenter oldTextInput newTextInput =
     (let oldText' = normalize nfc oldTextInput;
          newText' = normalize nfc newTextInput
      in if oldText' = newText' then Inr []
         else
           andThen (tokenizeChecked nfc isLNM segmenter oldText') (\<lambda>oldTokens.
           andThen (tokenizeChecked nfc isLNM segmenter newText') (\<lambda>newTokens.
           andThen (lcsIndicesTokensChecked oldTokens newTokens) (\<lambda>lcs.
           andThen (changesLoopChecked strict lcs (length oldTokens) (length newTokens) 0 0 0)
             (\<lambda>changes.
           andThen (mergeLoopChecked strict oldTokens newTokens [] changes) (\<lambda>mergedChanges.
             diffLoopChecked oldText' newText' oldTokens newTokens mergedChanges))))))"

section \<open>The example of the three substituted words\<close>

text \<open>The segments that a word-granularity segmenter returns for ASCII words separated by
  single spaces: one segment for each word and one for each space, from offset \<open>i\<close>.\<close>

fun wordSegments :: "string list \<Rightarrow> nat \<Rightarrow> Segment list" where
  "wordSegments [] i = []"
| "wordSegments (w # ws) i =
     \<lparr>segment = ascii w, index = i, isWordLike = Some (w \<noteq> '' '')\<rparr>
     # wordSegments ws (i + length w)"

definition quickTokens :: "Token list" where
  "quickTokens =
     [\<lparr>tkind = Word, tvalue = ascii ''quick'', tstart = 0, tend = 5\<rparr>,
      \<lparr>tkind = Sep, tvalue = ascii '' '', tstart = 5, tend = 6\<rparr>,
      \<lparr>tkind = Word, tvalue = ascii ''brown'', tstart = 6, tend = 11\<rparr>,
      \<lparr>tkind = Sep, tvalue = ascii '' '', tstart = 11, tend = 12\<rparr>,
      \<lparr>tkind = Word, tvalue = ascii ''fox'', tstart = 12, tend = 15\<rparr>]"

definition fastTokens :: "Token list" where
  "fastTokens =
     [\<lparr>tkind = Word, tvalue = ascii ''fast'', tstart = 0, tend = 4\<rparr>,
      \<lparr>tkind = Sep, tvalue = ascii '' '', tstart = 4, tend = 5\<rparr>,
      \<lparr>tkind = Word, tvalue = ascii ''dark'', tstart = 5, tend = 9\<rparr>,
      \<lparr>tkind = Sep, tvalue = ascii '' '', tstart = 9, tend = 10\<rparr>,
      \<lparr>tkind = Word, tvalue = ascii ''wolf'', tstart = 10, tend = 14\<rparr>]"

lemma quick_regexTokens:
  assumes "\<forall>c. 97 \<le> c \<and> c \<le> 122 \<longrightarrow> isLNM c" "\<not> isLNM 32"
  shows "regexTokens isLNM (ascii ''quick brown fox'') 0 = quickTokens"
  using assms
  by (simp add: regexTokens.simps WORD_REGEX_exec.simps ascii_def quickTokens_def slice_def
      testLNM_def isLead_def isTrail_def Let_def)

lemma fast_regexTokens:
  assumes "\<forall>c. 97 \<le> c \<and> c \<le> 122 \<longrightarrow> isLNM c" "\<not> isLNM 32"
  shows "regexTokens isLNM (ascii ''fast dark wolf'') 0 = fastTokens"
  using assms
  by (simp add: regexTokens.simps WORD_REGEX_exec.simps ascii_def fastTokens_def slice_def
      testLNM_def isLead_def isTrail_def Let_def)

lemma quick_segmentTokens:
  "segmentTokens isLNM (ascii ''quick brown fox'')
     (wordSegments [''quick'', '' '', ''brown'', '' '', ''fox''] 0) 0 = quickTokens"
  by (simp add: ascii_def quickTokens_def Let_def)

lemma fast_segmentTokens:
  "segmentTokens isLNM (ascii ''fast dark wolf'')
     (wordSegments [''fast'', '' '', ''dark'', '' '', ''wolf''] 0) 0 = fastTokens"
  by (simp add: ascii_def fastTokens_def Let_def)

lemma quick_fast_diffLoop:
  "diffLoop (ascii ''quick brown fox'') (ascii ''fast dark wolf'') quickTokens fastTokens
     (mergedChangesOf quickTokens fastTokens) =
   [\<lparr>oldText = ascii ''quick brown fox'',
     position = \<lparr>startIndex = 0, endIndex = 15\<rparr>,
     newText = ascii ''fast dark wolf'',
     changeType = Replace\<rparr>]"
  by code_simp

lemma quick_fast_differ: "ascii ''quick brown fox'' \<noteq> ascii ''fast dark wolf''"
  by (simp add: ascii_def)

text \<open>
  Claim C8. \<^verbatim>\<open>getTextDiffs("quick brown fox", "fast dark wolf")\<close> returns exactly one
  diff: old text \<^verbatim>\<open>"quick brown fox"\<close>, new text \<^verbatim>\<open>"fast dark wolf"\<close>, position 0 to 15
  (the whole old string), change type \<^verbatim>\<open>replace\<close>. The engine enters through what it is
  known to do on these inputs: both strings are in normal form, the lower-case letters
  are letters and the space is not, and the segmenter is either unavailable or returns
  the words and the spaces as segments.
\<close>

theorem quick_brown_fox_single_replace:
  assumes nfc_old: "nfc (ascii ''quick brown fox'') = ascii ''quick brown fox''"
    and nfc_new: "nfc (ascii ''fast dark wolf'') = ascii ''fast dark wolf''"
    and letters: "\<forall>c. 97 \<le> c \<and> c \<le> 122 \<longrightarrow> isLNM c"
    and space: "\<not> isLNM 32"
    and seg_old: "segmenter (ascii ''quick brown fox'') = None \<or>
      segmenter (ascii ''quick brown fox'') =
        Some (wordSegments [''quick'', '' '', ''brown'', '' '', ''fox''] 0)"
    and seg_new: "segmenter (ascii ''fast dark wolf'') = None \<or>
      segmenter (ascii ''fast dark wolf'') =
        Some (wordSegments [''fast'', '' '', ''dark'', '' '', ''wolf''] 0)"
  shows "getTextDiffs nfc isLNM segmenter (ascii ''quick brown fox'') (ascii ''fast dark wolf'') =
    [\<lparr>oldText = ascii ''quick brown fox'',
      position = \<lparr>startIndex = 0, endIndex = length (ascii ''quick brown fox'')\<rparr>,
      newText = ascii ''fast dark wolf'',
      changeType = Replace\<rparr>]"
proof -
  have told: "tokenize nfc isLNM segmenter (ascii ''quick brown fox'') = quickTokens"
    using seg_old
  proof
    assume "segmenter (ascii ''quick brown fox'') = None"
    then show ?thesis
      by (simp add: tokenize_def normalize_def nfc_old quick_regexTokens [OF letters space])
  next
    assume "segmenter (ascii ''quick brown fox'') =
      Some (wordSegments [''quick'', '' '', ''brown'', '' '', ''fox''] 0)"
    then show ?thesis
      by (simp only: tokenize_def normalize_def nfc_old Let_def option.case quick_segmentTokens)
  qed
  have tnew: "tokenize nfc isLNM segmenter (ascii ''fast dark wolf'') = fastTokens"
    using seg_new
  proof
    assume "segmenter (ascii ''fast dark wolf'') = None"
    then show ?thesis
      by (simp add: tokenize_def normalize_def nfc_new fast_regexTokens [OF letters space])
  next
    assume "segmenter (ascii ''fast dark wolf'') =
      Some (wordSegments [''fast'', '' '', ''dark'', '' '', ''wolf''] 0)"
    then show ?thesis
      by (simp only: tokenize_def normalize_def nfc_new Let_def option.case fast_segmentTokens)
  qed
  have len: "length (ascii ''quick brown fox'') = 15"
    by (simp add: ascii_def)
  show ?thesis
    unfolding getTextDiffs_def normalize_def nfc_old nfc_new Let_def
    using quick_fast_differ
    by (simp only: if_False told [unfolded normalize_def] tnew quick_fast_diffLoop len)
qed

theorem quick_brown_fox_witness:
  "getTextDiffs (\<lambda>s. s) (\<lambda>c. 97 \<le> c \<and> c \<le> 122) (\<lambda>s. None)
     (ascii ''quick brown fox'') (ascii ''fast dark wolf'') =
    [\<lparr>oldText = ascii ''quick brown fox'',
      position = \<lparr>startIndex = 0, endIndex = length (ascii ''quick brown fox'')\<rparr>,
      newText = ascii ''fast dark wolf'',
      changeType = Replace\<rparr>]"
  by (rule quick_brown_fox_single_replace) simp_all

section \<open>Invariants of the aligner, the range extractor and the merger\<close>

text \<open>The pairs of an alignment from \<open>(i, j)\<close> on: in range, strictly increasing in both
  components, and matching in value.\<close>

fun pairsFrom :: "Token list \<Rightarrow> Token list \<Rightarrow> nat \<Rightarrow> nat \<Rightarrow> (nat \<times> nat) list \<Rightarrow> bool" where
  "pairsFrom a b i j [] = True"
| "pairsFrom a b i j (p # ps) =
     (i \<le> fst p \<and> fst p < length a \<and> j \<le> snd p \<and> snd p < length b \<and>
      tvalue (a ! fst p) = tvalue (b ! snd p) \<and> pairsFrom a b (fst p + 1) (snd p + 1) ps)"

lemma pairsFrom_mono:
  "pairsFrom a b i j ps \<Longrightarrow> i' \<le> i \<Longrightarrow> j' \<le> j \<Longrightarrow> pairsFrom a b i' j' ps"
  by (cases ps) auto

lemma lcsWalk_pairsFrom: "pairsFrom a b i j (lcsWalk a b dp i j)"
proof (induction a b dp i j rule: lcsWalk.induct)
  case (1 a b dp i j)
  show ?case
  proof (cases "i < length a \<and> j < length b")
    case False
    then show ?thesis by (subst lcsWalk.simps) auto
  next
    case True
    note inb = this
    show ?thesis
    proof (cases "tvalue (a ! i) = tvalue (b ! j)")
      case True
      with inb "1.IH"(1) show ?thesis
        by (subst lcsWalk.simps) simp
    next
      case False
      note nm = this
      show ?thesis
      proof (cases "dp ! (i + 1) ! j \<ge> dp ! i ! (j + 1)")
        case True
        with inb nm "1.IH"(2) have "pairsFrom a b (i + 1) j (lcsWalk a b dp (i + 1) j)" by simp
        then have "pairsFrom a b i j (lcsWalk a b dp (i + 1) j)"
          by (rule pairsFrom_mono) simp_all
        with inb nm True show ?thesis by (subst lcsWalk.simps) simp
      next
        case False
        with inb nm "1.IH"(3) have "pairsFrom a b i (j + 1) (lcsWalk a b dp i (j + 1))" by simp
        then have "pairsFrom a b i j (lcsWalk a b dp i (j + 1))"
          by (rule pairsFrom_mono) simp_all
        with inb nm False show ?thesis by (subst lcsWalk.simps) simp
      qed
    qed
  qed
qed

text \<open>Ranges in order, each after the bounds left by its predecessor, as the extraction loop
  leaves \<^verbatim>\<open>prevOld\<close> and \<^verbatim>\<open>prevNew\<close> one past the anchor.\<close>

fun rangesFrom :: "nat \<Rightarrow> nat \<Rightarrow> ChangeRange list \<Rightarrow> bool" where
  "rangesFrom lold lnew [] = True"
| "rangesFrom lold lnew (r # rs) =
     (lold \<le> oldTokStart r \<and> lnew \<le> newTokStart r \<and>
      oldTokStart r \<le> oldTokEnd r \<and> newTokStart r \<le> newTokEnd r \<and>
      rangesFrom (oldTokEnd r + 1) (newTokEnd r + 1) rs)"

text \<open>Ranges that are non-empty on some side and whose complement, the gaps before, between
  and after them, carries equal token values on the old and the new side.\<close>

fun chain :: "Token list \<Rightarrow> Token list \<Rightarrow> nat \<Rightarrow> nat \<Rightarrow> ChangeRange list \<Rightarrow> bool" where
  "chain a b go gn [] =
     (go \<le> length a \<and> gn \<le> length b \<and> map tvalue (drop go a) = map tvalue (drop gn b))"
| "chain a b go gn (r # rs) =
     (go \<le> oldTokStart r \<and> gn \<le> newTokStart r \<and>
      map tvalue (slice a go (oldTokStart r)) = map tvalue (slice b gn (newTokStart r)) \<and>
      oldTokStart r \<le> oldTokEnd r \<and> newTokStart r \<le> newTokEnd r \<and>
      (oldTokStart r < oldTokEnd r \<or> newTokStart r < newTokEnd r) \<and>
      chain a b (oldTokEnd r) (newTokEnd r) rs)"

lemma slice_Suc: "a \<le> i \<Longrightarrow> i < length xs \<Longrightarrow> slice xs a (Suc i) = slice xs a i @ [xs ! i]"
  unfolding slice_def
  by (simp add: Suc_diff_le take_Suc_conv_app_nth)

lemma slice_same [simp]: "slice xs a a = []"
  by (simp add: slice_def)

lemma slice_to_end: "slice xs a (length xs) = drop a xs"
  by (simp add: slice_def)

lemma changesLoop_beyond: "length lcs < k \<Longrightarrow> changesLoop lcs oldLen newLen k po pn = []"
  by (subst changesLoop.simps) simp

lemma changesLoop_last:
  "changesLoop lcs oldLen newLen (length lcs) po pn =
     (if oldLen > po \<or> newLen > pn
      then [\<lparr>oldTokStart = po, oldTokEnd = oldLen, newTokStart = pn, newTokEnd = newLen\<rparr>]
      else [])"
  by (subst changesLoop.simps) (simp add: js_get_def changesLoop_beyond)

lemma changesLoop_pair:
  "k < length lcs \<Longrightarrow> lcs ! k = (p, q) \<Longrightarrow>
   changesLoop lcs oldLen newLen k po pn =
     (if p > po \<or> q > pn
      then [\<lparr>oldTokStart = po, oldTokEnd = p, newTokStart = pn, newTokEnd = q\<rparr>]
      else [])
     @ changesLoop lcs oldLen newLen (Suc k) (Suc p) (Suc q)"
  by (subst changesLoop.simps) (simp add: js_get_def)

lemma rangesFrom_mono:
  "rangesFrom lold lnew rs \<Longrightarrow> lold' \<le> lold \<Longrightarrow> lnew' \<le> lnew \<Longrightarrow> rangesFrom lold' lnew' rs"
  by (cases rs) auto

lemma changesLoop_rangesFrom:
  "pairsFrom a b po pn (drop k lcs) \<Longrightarrow> po \<le> oldLen \<Longrightarrow> pn \<le> newLen \<Longrightarrow>
   oldLen = length a \<Longrightarrow> newLen = length b \<Longrightarrow>
   rangesFrom po pn (changesLoop lcs oldLen newLen k po pn)"
proof (induction lcs oldLen newLen k po pn rule: changesLoop.induct)
  case (1 lcs oldLen newLen k po pn)
  consider "k < length lcs" | "k = length lcs" | "length lcs < k" by linarith
  then show ?case
  proof cases
    case 1
    then have d: "drop k lcs = lcs ! k # drop (Suc k) lcs"
      by (simp add: Cons_nth_drop_Suc)
    obtain p q where pq: "lcs ! k = (p, q)" by (cases "lcs ! k")
    from "1.prems"(1) d pq have v: "po \<le> p" "p < length a" "pn \<le> q" "q < length b"
      "pairsFrom a b (p + 1) (q + 1) (drop (Suc k) lcs)" by auto
    have r: "rangesFrom (Suc p) (Suc q) (changesLoop lcs oldLen newLen (Suc k) (Suc p) (Suc q))"
      using "1.IH" [of "Some (p, q)" p q] 1 pq v "1.prems" by (simp add: js_get_def)
    show ?thesis
    proof (cases "p > po \<or> q > pn")
      case True
      with r v show ?thesis by (simp add: changesLoop_pair [OF 1 pq])
    next
      case False
      with v have "rangesFrom po pn (changesLoop lcs oldLen newLen (Suc k) (Suc p) (Suc q))"
        by (intro rangesFrom_mono [OF r]) simp_all
      with False show ?thesis by (simp add: changesLoop_pair [OF 1 pq])
    qed
  next
    case 2
    with "1.prems" show ?thesis by (simp add: changesLoop_last)
  next
    case 3
    then show ?thesis by (simp add: changesLoop_beyond)
  qed
qed

lemma changesLoop_chain:
  "pairsFrom a b po pn (drop k lcs) \<Longrightarrow> k \<le> length lcs \<Longrightarrow> po \<le> oldLen \<Longrightarrow> pn \<le> newLen \<Longrightarrow>
   oldLen = length a \<Longrightarrow> newLen = length b \<Longrightarrow> go \<le> po \<Longrightarrow> gn \<le> pn \<Longrightarrow>
   map tvalue (slice a go po) = map tvalue (slice b gn pn) \<Longrightarrow>
   chain a b go gn (changesLoop lcs oldLen newLen k po pn)"
proof (induction lcs oldLen newLen k po pn arbitrary: go gn rule: changesLoop.induct)
  case (1 lcs oldLen newLen k po pn)
  show ?case
  proof (cases "k < length lcs")
    case True
    then have d: "drop k lcs = lcs ! k # drop (Suc k) lcs"
      by (simp add: Cons_nth_drop_Suc)
    obtain p q where pq: "lcs ! k = (p, q)" by (cases "lcs ! k")
    from "1.prems"(1) d pq have v: "po \<le> p" "p < length a" "pn \<le> q" "q < length b"
      "tvalue (a ! p) = tvalue (b ! q)"
      "pairsFrom a b (p + 1) (q + 1) (drop (Suc k) lcs)" by auto
    note IH = "1.IH" [of "Some (p, q)" p q]
    show ?thesis
    proof (cases "p > po \<or> q > pn")
      case True
      have "map tvalue (slice a p (Suc p)) = map tvalue (slice b q (Suc q))"
        using v by (simp add: slice_Suc)
      then have "chain a b p q (changesLoop lcs oldLen newLen (Suc k) (Suc p) (Suc q))"
        using IH [of p q] \<open>k < length lcs\<close> pq v "1.prems" by (simp add: js_get_def)
      then show ?thesis
        using True v "1.prems"(7-9)
        by (simp add: changesLoop_pair [OF \<open>k < length lcs\<close> pq])
    next
      case False
      then have e: "p = po" "q = pn" using v by auto
      have "map tvalue (slice a go (Suc po)) = map tvalue (slice b gn (Suc pn))"
        using v e "1.prems" by (simp add: slice_Suc)
      then have "chain a b go gn (changesLoop lcs oldLen newLen (Suc k) (Suc p) (Suc q))"
        using IH [of go gn] \<open>k < length lcs\<close> pq v e "1.prems" by (simp add: js_get_def)
      then show ?thesis
        using False by (simp add: changesLoop_pair [OF \<open>k < length lcs\<close> pq])
    qed
  next
    case False
    with "1.prems"(2) have k: "k = length lcs" by simp
    show ?thesis
    proof (cases "oldLen > po \<or> newLen > pn")
      case True
      then show ?thesis
        using "1.prems" by (simp add: k changesLoop_last)
    next
      case False
      with "1.prems" have "po = length a" "pn = length b" by auto
      with "1.prems"(9) have "map tvalue (drop go a) = map tvalue (drop gn b)"
        by (simp add: slice_to_end)
      with False "1.prems" show ?thesis by (simp add: k changesLoop_last)
    qed
  qed
qed

text \<open>No two neighbours of the list satisfy the condition under which the merging loop
  merges them.\<close>

fun irreducible :: "Token list \<Rightarrow> Token list \<Rightarrow> ChangeRange list \<Rightarrow> bool" where
  "irreducible a b (r # r' # rs) =
     (\<not> (onlySepsBetween a (oldTokEnd r) (oldTokStart r') \<and>
         onlySepsBetween b (newTokEnd r) (newTokStart r')) \<and>
      irreducible a b (r' # rs))"
| "irreducible a b rs = True"

lemma js_last_Some: "js_last xs = Some l \<Longrightarrow> xs = butlast xs @ [l]"
proof -
  assume "js_last xs = Some l"
  then have "xs \<noteq> []" "l = last xs"
    by (auto simp: js_last_def last_conv_nth split: if_splits)
  then show ?thesis by simp
qed

lemma js_last_None: "js_last xs = None \<Longrightarrow> xs = []"
  by (auto simp: js_last_def split: if_splits)

lemma js_last_snoc [simp]: "js_last (xs @ [x]) = Some x"
  by (simp add: js_last_def)

lemma js_last_Nil [simp]: "js_last [] = None"
  by (simp add: js_last_def)

lemma mergeLoop_invariant:
  assumes step: "\<And>xs l ch ys. P (xs @ l # ch # ys) \<Longrightarrow>
      P (xs @ l\<lparr>oldTokEnd := oldTokEnd ch, newTokEnd := newTokEnd ch\<rparr> # ys)"
  shows "P (acc @ rest) \<Longrightarrow> P (mergeLoop a b acc rest)"
proof (induction rest arbitrary: acc)
  case Nil
  then show ?case by simp
next
  case (Cons ch rest)
  show ?case
  proof (cases "js_last acc")
    case None
    then have "acc = []" by (rule js_last_None)
    with Cons.prems Cons.IH [of "[ch]"] show ?thesis by simp
  next
    case (Some l)
    then have acc: "acc = butlast acc @ [l]" by (rule js_last_Some)
    from Cons.prems have p: "P (butlast acc @ l # ch # rest)"
      by (subst (asm) acc) simp
    have m: "P ((butlast acc @ [l\<lparr>oldTokEnd := oldTokEnd ch, newTokEnd := newTokEnd ch\<rparr>]) @ rest)"
      using step [OF p] by simp
    have n: "P ((acc @ [ch]) @ rest)"
      using Cons.prems by simp
    show ?thesis
      using Some Cons.IH [OF m] Cons.IH [OF n] by simp
  qed
qed

lemma rangesFrom_merge:
  "rangesFrom lold lnew (xs @ l # ch # ys) \<Longrightarrow>
   rangesFrom lold lnew (xs @ l\<lparr>oldTokEnd := oldTokEnd ch, newTokEnd := newTokEnd ch\<rparr> # ys)"
  by (induction xs arbitrary: lold lnew) auto

lemma chain_merge:
  "chain a b go gn (xs @ l # ch # ys) \<Longrightarrow>
   chain a b go gn (xs @ l\<lparr>oldTokEnd := oldTokEnd ch, newTokEnd := newTokEnd ch\<rparr> # ys)"
  by (induction xs arbitrary: go gn) auto

lemma lcsIndicesTokens_pairsFrom: "pairsFrom a b 0 0 (lcsIndicesTokens a b)"
  unfolding lcsIndicesTokens_def by (rule lcsWalk_pairsFrom)

lemma mergedChangesOf_rangesFrom: "rangesFrom 0 0 (mergedChangesOf a b)"
proof -
  have "rangesFrom 0 0 (changesLoop (lcsIndicesTokens a b) (length a) (length b) 0 0 0)"
    by (rule changesLoop_rangesFrom) (simp_all add: lcsIndicesTokens_pairsFrom)
  then show ?thesis
    unfolding mergedChangesOf_def Let_def
    by (intro mergeLoop_invariant [where P = "rangesFrom 0 0"] rangesFrom_merge) simp_all
qed

lemma mergedChangesOf_chain: "chain a b 0 0 (mergedChangesOf a b)"
proof -
  have "chain a b 0 0 (changesLoop (lcsIndicesTokens a b) (length a) (length b) 0 0 0)"
    by (rule changesLoop_chain) (simp_all add: lcsIndicesTokens_pairsFrom)
  then show ?thesis
    unfolding mergedChangesOf_def Let_def
    by (intro mergeLoop_invariant [where P = "chain a b 0 0"] chain_merge) simp_all
qed

lemma irreducible_snoc_update:
  "irreducible a b (xs @ [l]) \<Longrightarrow> oldTokStart l' = oldTokStart l \<Longrightarrow>
   newTokStart l' = newTokStart l \<Longrightarrow> irreducible a b (xs @ [l'])"
proof (induction xs)
  case Nil
  then show ?case by simp
next
  case (Cons x xs)
  then show ?case by (cases xs) auto
qed

lemma irreducible_snoc:
  "irreducible a b (xs @ [l]) \<Longrightarrow>
   \<not> (onlySepsBetween a (oldTokEnd l) (oldTokStart ch) \<and>
      onlySepsBetween b (newTokEnd l) (newTokStart ch)) \<Longrightarrow>
   irreducible a b (xs @ [l, ch])"
proof (induction xs)
  case Nil
  then show ?case by simp
next
  case (Cons x xs)
  then show ?case by (cases xs) auto
qed

lemma mergeLoop_irreducible:
  "irreducible a b acc \<Longrightarrow> irreducible a b (mergeLoop a b acc rest)"
proof (induction rest arbitrary: acc)
  case Nil
  then show ?case by simp
next
  case (Cons ch rest)
  show ?case
  proof (cases "js_last acc")
    case None
    then have "acc = []" by (rule js_last_None)
    with Cons.IH [of "[ch]"] show ?thesis by simp
  next
    case (Some l)
    then have acc: "acc = butlast acc @ [l]" by (rule js_last_Some)
    with Cons.prems have i: "irreducible a b (butlast acc @ [l])" by simp
    show ?thesis
    proof (cases "onlySepsBetween a (oldTokEnd l) (oldTokStart ch) \<and>
        onlySepsBetween b (newTokEnd l) (newTokStart ch)")
      case True
      have "irreducible a b
          (butlast acc @ [l\<lparr>oldTokEnd := oldTokEnd ch, newTokEnd := newTokEnd ch\<rparr>])"
        by (rule irreducible_snoc_update [OF i]) simp_all
      from Cons.IH [OF this] Some True show ?thesis by simp
    next
      case False
      have "irreducible a b (butlast acc @ [l, ch])"
        by (rule irreducible_snoc [OF i False])
      then have "irreducible a b (acc @ [ch])"
        by (subst acc) simp
      from Cons.IH [OF this] Some False show ?thesis by auto
    qed
  qed
qed

lemma irreducible_middle:
  "irreducible a b (xs @ l # ch # ys) \<Longrightarrow>
   \<not> (onlySepsBetween a (oldTokEnd l) (oldTokStart ch) \<and>
      onlySepsBetween b (newTokEnd l) (newTokStart ch))"
proof (induction xs)
  case Nil
  then show ?case by simp
next
  case (Cons x xs)
  then show ?case by (cases xs) auto
qed

lemma mergeLoop_fixpoint:
  "irreducible a b (acc @ rest) \<Longrightarrow> mergeLoop a b acc rest = acc @ rest"
proof (induction rest arbitrary: acc)
  case Nil
  then show ?case by simp
next
  case (Cons ch rest)
  from Cons.prems have n: "irreducible a b ((acc @ [ch]) @ rest)" by simp
  show ?case
  proof (cases "js_last acc")
    case None
    with Cons.IH [OF n] show ?thesis by simp
  next
    case (Some l)
    then have acc: "acc = butlast acc @ [l]" by (rule js_last_Some)
    from Cons.prems have "irreducible a b (butlast acc @ l # ch # rest)"
      by (subst (asm) acc) simp
    from irreducible_middle [OF this] Some Cons.IH [OF n] show ?thesis by auto
  qed
qed

lemma rangesFrom_nth:
  "rangesFrom lold lnew rs \<Longrightarrow> k + 1 < length rs \<Longrightarrow>
   oldTokEnd (rs ! k) < oldTokStart (rs ! (k + 1)) \<and>
   newTokEnd (rs ! k) < newTokStart (rs ! (k + 1))"
proof (induction rs arbitrary: lold lnew k)
  case Nil
  then show ?case by simp
next
  case (Cons r rs)
  show ?case
  proof (cases k)
    case 0
    with Cons.prems show ?thesis by (cases rs) auto
  next
    case (Suc k')
    with Cons.prems Cons.IH [of "oldTokEnd r + 1" "newTokEnd r + 1" k'] show ?thesis by simp
  qed
qed

lemma irreducible_nth:
  "irreducible a b rs \<Longrightarrow> k + 1 < length rs \<Longrightarrow>
   \<not> (onlySepsBetween a (oldTokEnd (rs ! k)) (oldTokStart (rs ! (k + 1))) \<and>
      onlySepsBetween b (newTokEnd (rs ! k)) (newTokStart (rs ! (k + 1))))"
proof (induction rs arbitrary: k)
  case Nil
  then show ?case by simp
next
  case (Cons r rs)
  show ?case
  proof (cases k)
    case 0
    with Cons.prems show ?thesis by (cases rs) auto
  next
    case (Suc k')
    with Cons.prems have "irreducible a b rs" by (cases rs) auto
    with Suc Cons.prems Cons.IH [of k'] show ?thesis by simp
  qed
qed

lemma chain_start_le: "chain a b go gn rs \<Longrightarrow> go \<le> length a \<and> gn \<le> length b"
  by (induction rs arbitrary: go gn) fastforce+

lemma chain_bounds:
  "chain a b go gn rs \<Longrightarrow> r \<in> set rs \<Longrightarrow>
   go \<le> oldTokStart r \<and> oldTokStart r \<le> oldTokEnd r \<and> oldTokEnd r \<le> length a \<and>
   gn \<le> newTokStart r \<and> newTokStart r \<le> newTokEnd r \<and> newTokEnd r \<le> length b \<and>
   (oldTokStart r < oldTokEnd r \<or> newTokStart r < newTokEnd r)"
proof (induction rs arbitrary: go gn)
  case Nil
  then show ?case by simp
next
  case (Cons x rs)
  from Cons.prems(1) have c: "chain a b (oldTokEnd x) (newTokEnd x) rs" by simp
  note le = chain_start_le [OF c]
  show ?case
  proof (cases "r = x")
    case True
    with Cons.prems(1) le show ?thesis by simp
  next
    case False
    with Cons.prems(2) have "r \<in> set rs" by simp
    from Cons.IH [OF c this] Cons.prems(1) show ?thesis by simp
  qed
qed

section \<open>The merging pass and the offsets of a diff\<close>

lemma diffLoop_set:
  "d \<in> set (diffLoop ot nt a b rs) \<Longrightarrow> \<exists>ch \<in> set rs. buildDiff ot nt a b ch = Some d"
  by (induction rs) (auto split: option.splits)

text \<open>The tokens of \<^verbatim>\<open>"a b c"\<close> and of \<^verbatim>\<open>"x b y"\<close>.\<close>

definition abcTokens :: "Token list" where
  "abcTokens =
     [\<lparr>tkind = Word, tvalue = ascii ''a'', tstart = 0, tend = 1\<rparr>,
      \<lparr>tkind = Sep, tvalue = ascii '' '', tstart = 1, tend = 2\<rparr>,
      \<lparr>tkind = Word, tvalue = ascii ''b'', tstart = 2, tend = 3\<rparr>,
      \<lparr>tkind = Sep, tvalue = ascii '' '', tstart = 3, tend = 4\<rparr>,
      \<lparr>tkind = Word, tvalue = ascii ''c'', tstart = 4, tend = 5\<rparr>]"

definition xbyTokens :: "Token list" where
  "xbyTokens =
     [\<lparr>tkind = Word, tvalue = ascii ''x'', tstart = 0, tend = 1\<rparr>,
      \<lparr>tkind = Sep, tvalue = ascii '' '', tstart = 1, tend = 2\<rparr>,
      \<lparr>tkind = Word, tvalue = ascii ''b'', tstart = 2, tend = 3\<rparr>,
      \<lparr>tkind = Sep, tvalue = ascii '' '', tstart = 3, tend = 4\<rparr>,
      \<lparr>tkind = Word, tvalue = ascii ''y'', tstart = 4, tend = 5\<rparr>]"

lemma abc_xby_merged:
  "mergedChangesOf abcTokens xbyTokens =
     [\<lparr>oldTokStart = 0, oldTokEnd = 1, newTokStart = 0, newTokEnd = 1\<rparr>,
      \<lparr>oldTokStart = 4, oldTokEnd = 5, newTokStart = 4, newTokEnd = 5\<rparr>]"
  by code_simp

lemma cat_dog:
  "getTextDiffs (\<lambda>s. s) (\<lambda>c. 97 \<le> c \<and> c \<le> 122) (\<lambda>s. None) (ascii ''cat'') (ascii ''dog'') =
     [\<lparr>oldText = ascii ''cat'', position = \<lparr>startIndex = 0, endIndex = 3\<rparr>,
       newText = ascii ''dog'', changeType = Replace\<rparr>]"
  by code_simp

text \<open>
  Claim C7. After the merging pass the list of change ranges is ordered and irreducible,
  for any two token arrays: each range ends before the next one starts, on both sides;
  the tokens strictly between two neighbours are not all separators on both sides; every
  range is a well-formed interval of token indices; and running the merging loop on the
  merged list again changes nothing.
\<close>

theorem merged_changes_ordered_irreducible:
  "let merged = mergedChangesOf oldTokens newTokens in
     (\<forall>k. k + 1 < length merged \<longrightarrow>
        oldTokEnd (merged ! k) < oldTokStart (merged ! (k + 1)) \<and>
        newTokEnd (merged ! k) < newTokStart (merged ! (k + 1)) \<and>
        \<not> (list_all (\<lambda>t. tkind t = Sep)
              (slice oldTokens (oldTokEnd (merged ! k)) (oldTokStart (merged ! (k + 1)))) \<and>
           list_all (\<lambda>t. tkind t = Sep)
              (slice newTokens (newTokEnd (merged ! k)) (newTokStart (merged ! (k + 1)))))) \<and>
     (\<forall>r \<in> set merged.
        oldTokStart r \<le> oldTokEnd r \<and> oldTokEnd r \<le> length oldTokens \<and>
        newTokStart r \<le> newTokEnd r \<and> newTokEnd r \<le> length newTokens) \<and>
     mergeLoop oldTokens newTokens [] merged = merged"
proof -
  define merged where "merged = mergedChangesOf oldTokens newTokens"
  have rf: "rangesFrom 0 0 merged"
    unfolding merged_def by (rule mergedChangesOf_rangesFrom)
  have ch: "chain oldTokens newTokens 0 0 merged"
    unfolding merged_def by (rule mergedChangesOf_chain)
  have irr: "irreducible oldTokens newTokens merged"
    unfolding merged_def mergedChangesOf_def Let_def
    by (rule mergeLoop_irreducible) simp
  have a: "oldTokEnd (merged ! k) < oldTokStart (merged ! (k + 1)) \<and>
        newTokEnd (merged ! k) < newTokStart (merged ! (k + 1)) \<and>
        \<not> (list_all (\<lambda>t. tkind t = Sep)
              (slice oldTokens (oldTokEnd (merged ! k)) (oldTokStart (merged ! (k + 1)))) \<and>
           list_all (\<lambda>t. tkind t = Sep)
              (slice newTokens (newTokEnd (merged ! k)) (newTokStart (merged ! (k + 1)))))"
    if "k + 1 < length merged" for k
    using rangesFrom_nth [OF rf that] irreducible_nth [OF irr that]
    by (simp add: onlySepsBetween_def)
  have b: "oldTokStart r \<le> oldTokEnd r \<and> oldTokEnd r \<le> length oldTokens \<and>
        newTokStart r \<le> newTokEnd r \<and> newTokEnd r \<le> length newTokens"
    if "r \<in> set merged" for r
    using chain_bounds [OF ch that] by simp
  have c: "mergeLoop oldTokens newTokens [] merged = merged"
    using mergeLoop_fixpoint [of oldTokens newTokens "[]" merged] irr by simp
  from a b c show ?thesis
    unfolding merged_def [symmetric] Let_def by blast
qed

theorem merged_changes_witness:
  "oldTokEnd (mergedChangesOf abcTokens xbyTokens ! 0)
     < oldTokStart (mergedChangesOf abcTokens xbyTokens ! 1) \<and>
   \<not> list_all (\<lambda>t. tkind t = Sep) (slice abcTokens 1 4) \<and>
   mergeLoop abcTokens xbyTokens [] (mergedChangesOf abcTokens xbyTokens)
     = mergedChangesOf abcTokens xbyTokens"
proof -
  have len: "0 + 1 < length (mergedChangesOf abcTokens xbyTokens)"
    by (simp add: abc_xby_merged)
  have w: "\<not> list_all (\<lambda>t. tkind t = Sep) (slice abcTokens 1 4)"
    by (simp add: abcTokens_def slice_def)
  from merged_changes_ordered_irreducible [of abcTokens xbyTokens] len w
  show ?thesis
    unfolding Let_def by (simp add: abc_xby_merged)
qed

text \<open>
  Claim C5. Every returned diff has as \<^verbatim>\<open>oldText\<close> the slice of the normalized old
  string between \<^verbatim>\<open>position.startIndex\<close> and \<^verbatim>\<open>position.endIndex\<close>, and it comes from a
  merged change range whose offsets are: the start of the first old token and the end of
  the last old token when the old span is non-empty, and otherwise, twice, the end of the
  token before the span, or 0 when the span starts at token 0.
\<close>

theorem old_text_is_slice_at_position:
  assumes d: "d \<in> set (getTextDiffs nfc isLNM segmenter oldTextInput newTextInput)"
  shows "let oldNormalized = normalize nfc oldTextInput;
             oldTokens = tokenize nfc isLNM segmenter oldNormalized;
             newTokens = tokenize nfc isLNM segmenter (normalize nfc newTextInput)
         in oldText d = slice oldNormalized (startIndex (position d)) (endIndex (position d)) \<and>
            (\<exists>ch \<in> set (mergedChangesOf oldTokens newTokens).
               oldTokStart ch \<le> oldTokEnd ch \<and> oldTokEnd ch \<le> length oldTokens \<and>
               (if oldTokStart ch < oldTokEnd ch
                then startIndex (position d) = tstart (oldTokens ! oldTokStart ch) \<and>
                     endIndex (position d) = tend (oldTokens ! (oldTokEnd ch - 1))
                else startIndex (position d) =
                       (if oldTokStart ch = 0 then 0 else tend (oldTokens ! (oldTokStart ch - 1))) \<and>
                     endIndex (position d) = startIndex (position d)))"
proof -
  define oldNormalized where "oldNormalized = normalize nfc oldTextInput"
  define newNormalized where "newNormalized = normalize nfc newTextInput"
  define oldTokens where "oldTokens = tokenize nfc isLNM segmenter oldNormalized"
  define newTokens where "newTokens = tokenize nfc isLNM segmenter newNormalized"
  from d have "d \<in> set (diffLoop oldNormalized newNormalized oldTokens newTokens
      (mergedChangesOf oldTokens newTokens))"
    unfolding getTextDiffs_def Let_def oldNormalized_def newNormalized_def oldTokens_def
      newTokens_def
    by (simp split: if_splits)
  from diffLoop_set [OF this] obtain ch where
    ch: "ch \<in> set (mergedChangesOf oldTokens newTokens)" and
    b: "buildDiff oldNormalized newNormalized oldTokens newTokens ch = Some d"
    by blast
  from chain_bounds [OF mergedChangesOf_chain ch]
  have bounds: "oldTokStart ch \<le> oldTokEnd ch \<and> oldTokEnd ch \<le> length oldTokens" by simp
  from b have sl: "oldText d =
      slice oldNormalized (startIndex (position d)) (endIndex (position d))"
    unfolding buildDiff_def Let_def sliceFromOriginal_def
    by (auto split: if_splits)
  from b have off: "if oldTokStart ch < oldTokEnd ch
      then startIndex (position d) = tstart (oldTokens ! oldTokStart ch) \<and>
           endIndex (position d) = tend (oldTokens ! (oldTokEnd ch - 1))
      else startIndex (position d) =
             (if oldTokStart ch = 0 then 0 else tend (oldTokens ! (oldTokStart ch - 1))) \<and>
           endIndex (position d) = startIndex (position d)"
    unfolding buildDiff_def Let_def
    by (auto split: if_splits)
  from ch bounds sl off show ?thesis
    unfolding Let_def oldNormalized_def [symmetric] newNormalized_def [symmetric]
      oldTokens_def [symmetric] newTokens_def [symmetric]
    by blast
qed

theorem old_text_is_slice_witness:
  "oldText \<lparr>oldText = ascii ''cat'', position = \<lparr>startIndex = 0, endIndex = 3\<rparr>,
            newText = ascii ''dog'', changeType = Replace\<rparr>
     = slice (normalize (\<lambda>s. s) (ascii ''cat'')) 0 3"
proof -
  have m: "\<lparr>oldText = ascii ''cat'', position = \<lparr>startIndex = 0, endIndex = 3\<rparr>,
            newText = ascii ''dog'', changeType = Replace\<rparr>
      \<in> set (getTextDiffs (\<lambda>s. s) (\<lambda>c. 97 \<le> c \<and> c \<le> 122) (\<lambda>s. None)
               (ascii ''cat'') (ascii ''dog''))"
    by (simp add: cat_dog)
  from old_text_is_slice_at_position [OF m] show ?thesis
    unfolding Let_def by simp
qed

section \<open>The aligner computes a longest common subsequence\<close>

text \<open>The length of a longest common subsequence of two lists, by the textbook recursion.\<close>

fun lcsLen :: "'a list \<Rightarrow> 'a list \<Rightarrow> nat" where
  "lcsLen [] ys = 0"
| "lcsLen (x # xs) [] = 0"
| "lcsLen (x # xs) (y # ys) =
     (if x = y then lcsLen xs ys + 1 else max (lcsLen xs (y # ys)) (lcsLen (x # xs) ys))"

text \<open>The reconstruction as the specification words it, on the value sequences, with the
  table entry \<open>dp[i][j]\<close> read as the length of a longest common subsequence of the
  suffixes from \<open>i\<close> and from \<open>j\<close>.\<close>

function lcsPolicy :: "'a list \<Rightarrow> 'a list \<Rightarrow> nat \<Rightarrow> nat \<Rightarrow> (nat \<times> nat) list" where
  "lcsPolicy va vb i j =
     (if i < length va \<and> j < length vb then
        (if va ! i = vb ! j then (i, j) # lcsPolicy va vb (i + 1) (j + 1)
         else if lcsLen (drop (i + 1) va) (drop j vb) \<ge> lcsLen (drop i va) (drop (j + 1) vb)
           then lcsPolicy va vb (i + 1) j
         else lcsPolicy va vb i (j + 1))
      else [])"
  by pat_completeness auto
termination
  by (relation "measure (\<lambda>(va, vb, i, j). (length va - i) + (length vb - j))") auto

declare lcsPolicy.simps [simp del]

lemma lcsLen_Nil2 [simp]: "lcsLen xs [] = 0"
  by (cases xs) simp_all

lemma lcsLen_upper:
  "subseq zs xs \<Longrightarrow> subseq zs ys \<Longrightarrow> length zs \<le> lcsLen xs ys"
proof (induction xs ys arbitrary: zs rule: lcsLen.induct)
  case (1 ys)
  then show ?case by simp
next
  case (2 x xs)
  then show ?case by simp
next
  case (3 x xs y ys)
  show ?case
  proof (cases zs)
    case Nil
    then show ?thesis by simp
  next
    case (Cons z zs')
    show ?thesis
    proof (cases "x = y")
      case True
      from "3.prems" Cons have "subseq zs' xs" "subseq zs' ys"
        by (auto simp: subseq_Cons2_iff split: if_splits dest: subseq_Cons')
      with "3.IH"(1) [OF True] have "length zs' \<le> lcsLen xs ys" by simp
      with True Cons show ?thesis by simp
    next
      case False
      show ?thesis
      proof (cases "z = x")
        case True
        with False "3.prems"(2) Cons have "subseq zs ys"
          by (simp add: subseq_Cons2_iff)
        with "3.IH"(3) [OF False] "3.prems"(1) have "length zs \<le> lcsLen (x # xs) ys" by simp
        with False show ?thesis by simp
      next
        case nx: False
        with "3.prems"(1) Cons have "subseq zs xs"
          by (simp add: subseq_Cons2_iff)
        with "3.IH"(2) [OF False] "3.prems"(2) have "length zs \<le> lcsLen xs (y # ys)" by simp
        with False show ?thesis by simp
      qed
    qed
  qed
qed

lemma lcsLen_attained:
  "\<exists>zs. subseq zs xs \<and> subseq zs ys \<and> length zs = lcsLen xs ys"
proof (induction xs ys rule: lcsLen.induct)
  case (1 ys)
  then show ?case by simp
next
  case (2 x xs)
  then show ?case by simp
next
  case (3 x xs y ys)
  show ?case
  proof (cases "x = y")
    case True
    from "3.IH"(1) [OF True] obtain zs where
      "subseq zs xs" "subseq zs ys" "length zs = lcsLen xs ys" by blast
    with True have "subseq (x # zs) (x # xs) \<and> subseq (x # zs) (y # ys) \<and>
        length (x # zs) = lcsLen (x # xs) (y # ys)"
      by simp
    then show ?thesis by blast
  next
    case False
    from "3.IH"(2) [OF False] obtain zs where
      a: "subseq zs xs" "subseq zs (y # ys)" "length zs = lcsLen xs (y # ys)" by blast
    from "3.IH"(3) [OF False] obtain ws where
      b: "subseq ws (x # xs)" "subseq ws ys" "length ws = lcsLen (x # xs) ys" by blast
    show ?thesis
    proof (cases "lcsLen xs (y # ys) \<ge> lcsLen (x # xs) ys")
      case True
      with a False have "subseq zs (x # xs) \<and> subseq zs (y # ys) \<and>
          length zs = lcsLen (x # xs) (y # ys)"
        by (simp add: max_def list_emb_Cons)
      then show ?thesis by blast
    next
      case False
      with b \<open>x \<noteq> y\<close> have "subseq ws (x # xs) \<and> subseq ws (y # ys) \<and>
          length ws = lcsLen (x # xs) (y # ys)"
        by (simp add: max_def list_emb_Cons)
      then show ?thesis by blast
    qed
  qed
qed

lemma lcsLen_drop:
  "i < length va \<Longrightarrow> j < length vb \<Longrightarrow>
   lcsLen (drop i va) (drop j vb) =
     (if va ! i = vb ! j then lcsLen (drop (i + 1) va) (drop (j + 1) vb) + 1
      else max (lcsLen (drop (i + 1) va) (drop j vb)) (lcsLen (drop i va) (drop (j + 1) vb)))"
  by (simp add: Cons_nth_drop_Suc [symmetric])

lemma lcsPolicy_length:
  "length (lcsPolicy va vb i j) = lcsLen (drop i va) (drop j vb)"
proof (induction va vb i j rule: lcsPolicy.induct)
  case (1 va vb i j)
  show ?case
  proof (cases "i < length va \<and> j < length vb")
    case False
    then show ?thesis by (subst lcsPolicy.simps) auto
  next
    case True
    then have l: "lcsLen (drop i va) (drop j vb) =
     (if va ! i = vb ! j then lcsLen (drop (i + 1) va) (drop (j + 1) vb) + 1
      else max (lcsLen (drop (i + 1) va) (drop j vb)) (lcsLen (drop i va) (drop (j + 1) vb)))"
      by (intro lcsLen_drop) simp_all
    show ?thesis
      using True "1.IH"
      by (subst lcsPolicy.simps, subst l) (auto simp: max_def)
  qed
qed

text \<open>The cells of the table that the two loops have filled when the outer loop is at row
  \<open>i\<close> and the inner loop has done the columns from \<open>j0\<close> on: every later row, the last
  column, and row \<open>i\<close> from \<open>j0\<close>. A filled cell holds the length of a longest common
  subsequence of the two suffixes.\<close>

definition dpDone :: "Token list \<Rightarrow> Token list \<Rightarrow> nat list list \<Rightarrow> nat \<Rightarrow> nat \<Rightarrow> bool" where
  "dpDone a b dp i j0 =
     (length dp = length a + 1 \<and>
      (\<forall>r \<le> length a. length (dp ! r) = length b + 1) \<and>
      (\<forall>r \<le> length a. \<forall>c \<le> length b.
         (i < r \<or> c = length b \<or> (r = i \<and> j0 \<le> c)) \<longrightarrow>
         dp ! r ! c = lcsLen (drop r (map tvalue a)) (drop c (map tvalue b))))"

lemma dpDone_cell:
  "dpDone a b dp i j0 \<Longrightarrow> r \<le> length a \<Longrightarrow> c \<le> length b \<Longrightarrow>
   i < r \<or> c = length b \<or> (r = i \<and> j0 \<le> c) \<Longrightarrow>
   dp ! r ! c = lcsLen (drop r (map tvalue a)) (drop c (map tvalue b))"
  unfolding dpDone_def by blast

lemma dpDone_shape:
  "dpDone a b dp i j0 \<Longrightarrow> length dp = length a + 1"
  "dpDone a b dp i j0 \<Longrightarrow> r \<le> length a \<Longrightarrow> length (dp ! r) = length b + 1"
  unfolding dpDone_def by blast+

lemma dpDoneI:
  "length dp = length a + 1 \<Longrightarrow> (\<And>r. r \<le> length a \<Longrightarrow> length (dp ! r) = length b + 1) \<Longrightarrow>
   (\<And>r c. r \<le> length a \<Longrightarrow> c \<le> length b \<Longrightarrow> i < r \<or> c = length b \<or> (r = i \<and> j0 \<le> c) \<Longrightarrow>
      dp ! r ! c = lcsLen (drop r (map tvalue a)) (drop c (map tvalue b))) \<Longrightarrow>
   dpDone a b dp i j0"
  unfolding dpDone_def by blast

lemma dpCell_correct:
  assumes "dpDone a b dp i (Suc j)" "i < length a" "j < length b"
  shows "dpCell a b dp i j = lcsLen (drop i (map tvalue a)) (drop j (map tvalue b))"
proof -
  have c1: "dp ! (i + 1) ! (j + 1) =
      lcsLen (drop (i + 1) (map tvalue a)) (drop (j + 1) (map tvalue b))"
    using assms(2,3) by (intro dpDone_cell [OF assms(1)]) simp_all
  have c2: "dp ! (i + 1) ! j = lcsLen (drop (i + 1) (map tvalue a)) (drop j (map tvalue b))"
    using assms(2,3) by (intro dpDone_cell [OF assms(1)]) simp_all
  have c3: "dp ! i ! (j + 1) = lcsLen (drop i (map tvalue a)) (drop (j + 1) (map tvalue b))"
    using assms(2,3) by (intro dpDone_cell [OF assms(1)]) simp_all
  have "lcsLen (drop i (map tvalue a)) (drop j (map tvalue b)) =
     (if map tvalue a ! i = map tvalue b ! j
      then lcsLen (drop (i + 1) (map tvalue a)) (drop (j + 1) (map tvalue b)) + 1
      else max (lcsLen (drop (i + 1) (map tvalue a)) (drop j (map tvalue b)))
               (lcsLen (drop i (map tvalue a)) (drop (j + 1) (map tvalue b))))"
    using assms(2,3) by (intro lcsLen_drop) simp_all
  with assms(2,3) c1 c2 c3 show ?thesis
    unfolding dpCell_def by simp
qed

lemma dpDone_update:
  assumes d: "dpDone a b dp i (Suc j)" and i: "i < length a" and j: "j < length b"
    and v: "v = lcsLen (drop i (map tvalue a)) (drop j (map tvalue b))"
  shows "dpDone a b (dp[i := (dp ! i)[j := v]]) i j"
proof (rule dpDoneI)
  show "length (dp[i := (dp ! i)[j := v]]) = length a + 1"
    using dpDone_shape(1) [OF d] by simp
next
  fix r assume r: "r \<le> length a"
  show "length (dp[i := (dp ! i)[j := v]] ! r) = length b + 1"
    using dpDone_shape(1) [OF d] dpDone_shape(2) [OF d r] dpDone_shape(2) [OF d, of i] i
    by (cases "r = i") simp_all
next
  fix r c
  assume r: "r \<le> length a" and c: "c \<le> length b"
    and reg: "i < r \<or> c = length b \<or> r = i \<and> j \<le> c"
  have len: "length dp = length a + 1" "length (dp ! i) = length b + 1"
    using dpDone_shape(1) [OF d] dpDone_shape(2) [OF d, of i] i by simp_all
  show "dp[i := (dp ! i)[j := v]] ! r ! c =
      lcsLen (drop r (map tvalue a)) (drop c (map tvalue b))"
  proof (cases "r = i")
    case True
    show ?thesis
    proof (cases "c = j")
      case True
      with \<open>r = i\<close> len i j v show ?thesis by simp
    next
      case False
      with True reg j have "i < i \<or> c = length b \<or> (i = i \<and> Suc j \<le> c)" by auto
      from dpDone_cell [OF d _ c this] i
      have "dp ! i ! c = lcsLen (drop i (map tvalue a)) (drop c (map tvalue b))" by simp
      with True False len i show ?thesis by simp
    qed
  next
    case False
    with reg have "i < r \<or> c = length b \<or> (r = i \<and> Suc j \<le> c)" by auto
    from dpDone_cell [OF d r c this] False show ?thesis by simp
  qed
qed

lemma dpRow_inner:
  assumes i: "i < length a" and d: "dpDone a b dp i (length b)" and j0: "j0 \<le> length b"
  shows "dpDone a b
     (foldl (\<lambda>dp j. dp[i := (dp ! i)[j := dpCell a b dp i j]]) dp (rev [j0..<length b])) i j0"
  using j0
proof (induction j0 rule: inc_induct)
  case base
  from d show ?case by simp
next
  case (step j)
  define dp1 where
    "dp1 = foldl (\<lambda>dp j. dp[i := (dp ! i)[j := dpCell a b dp i j]]) dp (rev [Suc j..<length b])"
  from step.IH have d1: "dpDone a b dp1 i (Suc j)" by (simp add: dp1_def)
  have "dpDone a b (dp1[i := (dp1 ! i)[j := dpCell a b dp1 i j]]) i j"
    by (rule dpDone_update [OF d1 i step.hyps(2) dpCell_correct [OF d1 i step.hyps(2)]])
  moreover have "rev [j..<length b] = rev [Suc j..<length b] @ [j]"
    using step.hyps(2) by (simp add: upt_conv_Cons)
  ultimately show ?case by (simp add: dp1_def)
qed

lemma dpDone_next_row:
  assumes d: "dpDone a b dp (Suc i) 0"
  shows "dpDone a b dp i (length b)"
proof (rule dpDoneI)
  show "length dp = length a + 1" by (rule dpDone_shape(1) [OF d])
next
  fix r assume "r \<le> length a"
  then show "length (dp ! r) = length b + 1" by (rule dpDone_shape(2) [OF d])
next
  fix r c
  assume r: "r \<le> length a" and c: "c \<le> length b"
    and reg: "i < r \<or> c = length b \<or> r = i \<and> length b \<le> c"
  with c have "Suc i < r \<or> c = length b \<or> (r = Suc i \<and> 0 \<le> c)" by auto
  from dpDone_cell [OF d r c this]
  show "dp ! r ! c = lcsLen (drop r (map tvalue a)) (drop c (map tvalue b))" .
qed

lemma dpRow_correct:
  "i < length a \<Longrightarrow> dpDone a b dp (Suc i) 0 \<Longrightarrow> dpDone a b (dpRow a b dp i) i 0"
  unfolding dpRow_def by (rule dpRow_inner) (simp_all add: dpDone_next_row)

lemma dpDone_init:
  "dpDone a b (replicate (length a + 1) (replicate (length b + 1) 0)) (length a) 0"
proof (rule dpDoneI)
  show "length (replicate (length a + 1) (replicate (length b + 1) (0::nat))) = length a + 1"
    by simp
next
  fix r assume "r \<le> length a"
  then show "length (replicate (length a + 1) (replicate (length b + 1) (0::nat)) ! r) =
      length b + 1"
    by (simp del: replicate.simps)
next
  fix r c
  assume r: "r \<le> length a" and c: "c \<le> length b"
    and reg: "length a < r \<or> c = length b \<or> r = length a \<and> 0 \<le> c"
  from r c have "replicate (length a + 1) (replicate (length b + 1) (0::nat)) ! r ! c = 0"
    by (simp del: replicate.simps)
  moreover from r reg
  have "lcsLen (drop r (map tvalue a)) (drop c (map tvalue b)) = 0" by auto
  ultimately show "replicate (length a + 1) (replicate (length b + 1) 0) ! r ! c =
      lcsLen (drop r (map tvalue a)) (drop c (map tvalue b))"
    by simp
qed

lemma dpTable_outer:
  "i0 \<le> length a \<Longrightarrow>
   dpDone a b (foldl (dpRow a b) (replicate (length a + 1) (replicate (length b + 1) 0))
     (rev [i0..<length a])) i0 0"
proof (induction i0 rule: inc_induct)
  case base
  show ?case using dpDone_init [of a b] by (simp del: replicate.simps)
next
  case (step i)
  have "rev [i..<length a] = rev [Suc i..<length a] @ [i]"
    using step.hyps(2) by (simp add: upt_conv_Cons)
  with dpRow_correct [OF step.hyps(2) step.IH] show ?case by (simp del: replicate.simps)
qed

lemma dpTable_correct:
  "r \<le> length a \<Longrightarrow> c \<le> length b \<Longrightarrow>
   dpTable a b ! r ! c = lcsLen (drop r (map tvalue a)) (drop c (map tvalue b))"
proof -
  assume r: "r \<le> length a" and c: "c \<le> length b"
  have d: "dpDone a b (dpTable a b) 0 0"
    using dpTable_outer [of 0 a b] unfolding dpTable_def by simp
  have "0 < r \<or> c = length b \<or> (r = 0 \<and> 0 \<le> c)" by auto
  from dpDone_cell [OF d r c this] show ?thesis .
qed

lemma dpTable_shape:
  "length (dpTable a b) = length a + 1"
  "r \<le> length a \<Longrightarrow> length (dpTable a b ! r) = length b + 1"
proof -
  have d: "dpDone a b (dpTable a b) 0 0"
    using dpTable_outer [of 0 a b] unfolding dpTable_def by simp
  show "length (dpTable a b) = length a + 1" by (rule dpDone_shape(1) [OF d])
  show "r \<le> length a \<Longrightarrow> length (dpTable a b ! r) = length b + 1"
    by (rule dpDone_shape(2) [OF d])
qed

lemma lcsWalk_policy:
  "lcsWalk a b (dpTable a b) i j = lcsPolicy (map tvalue a) (map tvalue b) i j"
proof (induction "map tvalue a" "map tvalue b" i j rule: lcsPolicy.induct)
  case (1 i j)
  show ?case
  proof (cases "i < length a \<and> j < length b")
    case False
    then show ?thesis
      by (subst lcsWalk.simps, subst lcsPolicy.simps) auto
  next
    case True
    then have t: "dpTable a b ! Suc i ! j =
        lcsLen (drop (Suc i) (map tvalue a)) (drop j (map tvalue b))"
      "dpTable a b ! i ! Suc j =
        lcsLen (drop i (map tvalue a)) (drop (Suc j) (map tvalue b))"
      by (simp_all add: dpTable_correct)
    show ?thesis
      using True "1.hyps"
      by (subst lcsWalk.simps, subst lcsPolicy.simps) (simp add: t)
  qed
qed

lemma pairsFrom_sorted:
  "pairsFrom a b i j ps \<Longrightarrow>
   sorted_wrt (\<lambda>p q. fst p < fst q \<and> snd p < snd q) ps \<and>
   (\<forall>p \<in> set ps. i \<le> fst p \<and> fst p < length a \<and> j \<le> snd p \<and> snd p < length b \<and>
      tvalue (a ! fst p) = tvalue (b ! snd p))"
proof (induction ps arbitrary: i j)
  case Nil
  then show ?case by simp
next
  case (Cons p ps)
  from Cons.prems have "pairsFrom a b (fst p + 1) (snd p + 1) ps" by simp
  from Cons.IH [OF this] Cons.prems show ?case by fastforce
qed

lemma pairsFrom_subseq_old:
  "pairsFrom a b i j ps \<Longrightarrow> subseq (map (\<lambda>p. tvalue (a ! fst p)) ps) (drop i (map tvalue a))"
proof (induction ps arbitrary: i j)
  case Nil
  then show ?case by simp
next
  case (Cons p ps)
  from Cons.prems have p: "i \<le> fst p" "fst p < length a"
    and r: "pairsFrom a b (fst p + 1) (snd p + 1) ps" by simp_all
  have "drop i (map tvalue a) =
      take (fst p - i) (drop i (map tvalue a)) @ drop (fst p) (map tvalue a)"
    using p by (metis append_take_drop_id drop_drop le_add_diff_inverse2)
  also have "drop (fst p) (map tvalue a) = tvalue (a ! fst p) # drop (fst p + 1) (map tvalue a)"
    using p by (simp add: Cons_nth_drop_Suc [symmetric])
  finally have e: "drop i (map tvalue a) = take (fst p - i) (drop i (map tvalue a)) @
      tvalue (a ! fst p) # drop (fst p + 1) (map tvalue a)" .
  have "subseq (tvalue (a ! fst p) # map (\<lambda>p. tvalue (a ! fst p)) ps)
      (tvalue (a ! fst p) # drop (fst p + 1) (map tvalue a))"
    using Cons.IH [OF r] by simp
  then show ?case
    by (subst e) (simp add: list_emb_append2)
qed

lemma pairsFrom_subseq_new:
  "pairsFrom a b i j ps \<Longrightarrow> subseq (map (\<lambda>p. tvalue (a ! fst p)) ps) (drop j (map tvalue b))"
proof (induction ps arbitrary: i j)
  case Nil
  then show ?case by simp
next
  case (Cons p ps)
  from Cons.prems have p: "j \<le> snd p" "snd p < length b"
    and v: "tvalue (a ! fst p) = tvalue (b ! snd p)"
    and r: "pairsFrom a b (fst p + 1) (snd p + 1) ps" by simp_all
  have "drop j (map tvalue b) =
      take (snd p - j) (drop j (map tvalue b)) @ drop (snd p) (map tvalue b)"
    using p by (metis append_take_drop_id drop_drop le_add_diff_inverse2)
  also have "drop (snd p) (map tvalue b) = tvalue (b ! snd p) # drop (snd p + 1) (map tvalue b)"
    using p by (simp add: Cons_nth_drop_Suc [symmetric])
  finally have e: "drop j (map tvalue b) = take (snd p - j) (drop j (map tvalue b)) @
      tvalue (b ! snd p) # drop (snd p + 1) (map tvalue b)" .
  have "subseq (tvalue (b ! snd p) # map (\<lambda>p. tvalue (a ! fst p)) ps)
      (tvalue (b ! snd p) # drop (snd p + 1) (map tvalue b))"
    using Cons.IH [OF r] by simp
  then show ?case
    by (subst e) (simp add: list_emb_append2 v)
qed

lemma abc_xby_lcs: "lcsIndicesTokens abcTokens xbyTokens = [(1, 1), (2, 2), (3, 3)]"
  by code_simp

text \<open>
  Claim C3. For any two token arrays, \<^verbatim>\<open>lcsIndicesTokens\<close> returns index pairs that are
  strictly increasing in both components, in range, and equal in value at each pair; the
  matched values form a common subsequence of the two value sequences, no common
  subsequence is longer, and the number of pairs is the length of a longest common
  subsequence; and the pairs are those of the stated reconstruction policy (emit and
  advance both on a match, otherwise advance the old pointer exactly when
  \<open>dp[i+1][j] \<ge> dp[i][j+1]\<close>), with \<open>dp\<close> the table of longest-common-subsequence lengths
  of the suffixes.
\<close>

theorem lcsIndicesTokens_longest_common_subsequence:
  "let pairs = lcsIndicesTokens a b;
       va = map tvalue a;
       vb = map tvalue b;
       matched = map (\<lambda>p. tvalue (a ! fst p)) pairs
   in sorted_wrt (\<lambda>p q. fst p < fst q \<and> snd p < snd q) pairs \<and>
      (\<forall>p \<in> set pairs. fst p < length a \<and> snd p < length b \<and>
         tvalue (a ! fst p) = tvalue (b ! snd p)) \<and>
      subseq matched va \<and> subseq matched vb \<and>
      (\<forall>zs. subseq zs va \<and> subseq zs vb \<longrightarrow> length zs \<le> length pairs) \<and>
      length pairs = lcsLen va vb \<and>
      pairs = lcsPolicy va vb 0 0"
proof -
  define pairs where "pairs = lcsIndicesTokens a b"
  have pf: "pairsFrom a b 0 0 pairs"
    unfolding pairs_def by (rule lcsIndicesTokens_pairsFrom)
  have pol: "pairs = lcsPolicy (map tvalue a) (map tvalue b) 0 0"
    unfolding pairs_def lcsIndicesTokens_def by (rule lcsWalk_policy)
  have len: "length pairs = lcsLen (map tvalue a) (map tvalue b)"
    using lcsPolicy_length [of "map tvalue a" "map tvalue b" 0 0] pol by simp
  have up: "length zs \<le> length pairs"
    if "subseq zs (map tvalue a) \<and> subseq zs (map tvalue b)" for zs
    using that lcsLen_upper [of zs "map tvalue a" "map tvalue b"] len by simp
  have so: "subseq (map (\<lambda>p. tvalue (a ! fst p)) pairs) (map tvalue a)"
    using pairsFrom_subseq_old [OF pf] by simp
  have sn: "subseq (map (\<lambda>p. tvalue (a ! fst p)) pairs) (map tvalue b)"
    using pairsFrom_subseq_new [OF pf] by simp
  have s1: "sorted_wrt (\<lambda>p q. fst p < fst q \<and> snd p < snd q) pairs"
    using pairsFrom_sorted [OF pf] by (rule conjunct1)
  have s2: "fst p < length a \<and> snd p < length b \<and> tvalue (a ! fst p) = tvalue (b ! snd p)"
    if "p \<in> set pairs" for p
    using pairsFrom_sorted [OF pf, THEN conjunct2, rule_format, OF that] by simp
  show ?thesis
    unfolding Let_def pairs_def [symmetric]
  proof (intro conjI ballI allI impI)
    show "sorted_wrt (\<lambda>p q. fst p < fst q \<and> snd p < snd q) pairs" by (rule s1)
    show "subseq (map (\<lambda>p. tvalue (a ! fst p)) pairs) (map tvalue a)" by (rule so)
    show "subseq (map (\<lambda>p. tvalue (a ! fst p)) pairs) (map tvalue b)" by (rule sn)
    show "length pairs = lcsLen (map tvalue a) (map tvalue b)" by (rule len)
    show "pairs = lcsPolicy (map tvalue a) (map tvalue b) 0 0" by (rule pol)
  next
    fix p assume "p \<in> set pairs"
    from s2 [OF this] show "fst p < length a" "snd p < length b"
      "tvalue (a ! fst p) = tvalue (b ! snd p)" by simp_all
  next
    fix zs assume "subseq zs (map tvalue a) \<and> subseq zs (map tvalue b)"
    then show "length zs \<le> length pairs" by (rule up)
  qed
qed

theorem lcsIndicesTokens_witness:
  "length [ascii '' '', ascii ''b''] \<le> length (lcsIndicesTokens abcTokens xbyTokens) \<and>
   tvalue (abcTokens ! fst (2::nat, 2::nat)) = tvalue (xbyTokens ! snd (2::nat, 2::nat)) \<and>
   lcsIndicesTokens abcTokens xbyTokens
     = lcsPolicy (map tvalue abcTokens) (map tvalue xbyTokens) 0 0"
proof -
  have m: "((2, 2) :: nat \<times> nat) \<in> set (lcsIndicesTokens abcTokens xbyTokens)"
    by (simp add: abc_xby_lcs)
  have s: "subseq [ascii '' '', ascii ''b''] (map tvalue abcTokens) \<and>
      subseq [ascii '' '', ascii ''b''] (map tvalue xbyTokens)"
    by (simp add: abcTokens_def xbyTokens_def ascii_def)
  note t = lcsIndicesTokens_longest_common_subsequence [of abcTokens xbyTokens, unfolded Let_def]
  from t have t2: "\<forall>p \<in> set (lcsIndicesTokens abcTokens xbyTokens).
      fst p < length abcTokens \<and> snd p < length xbyTokens \<and>
      tvalue (abcTokens ! fst p) = tvalue (xbyTokens ! snd p)"
    by (elim conjE)
  from t have t5: "\<forall>zs. subseq zs (map tvalue abcTokens) \<and> subseq zs (map tvalue xbyTokens)
      \<longrightarrow> length zs \<le> length (lcsIndicesTokens abcTokens xbyTokens)"
    by (elim conjE)
  from t have t7: "lcsIndicesTokens abcTokens xbyTokens
     = lcsPolicy (map tvalue abcTokens) (map tvalue xbyTokens) 0 0"
    by (elim conjE)
  from t2 [rule_format, OF m] t5 [rule_format, OF s] t7 show ?thesis
    by (intro conjI) (elim conjE, assumption)+
qed

section \<open>The classifier and the edit distance\<close>

text \<open>The Levenshtein distance of two sequences by the textbook recursion: delete, insert,
  or substitute (at no cost when the two heads are equal).\<close>

fun editDistance :: "'a list \<Rightarrow> 'a list \<Rightarrow> nat" where
  "editDistance [] ys = length ys"
| "editDistance (x # xs) [] = length (x # xs)"
| "editDistance (x # xs) (y # ys) =
     min (min (editDistance xs (y # ys) + 1) (editDistance (x # xs) ys + 1))
         (editDistance xs ys + (if x = y then 0 else 1))"

text \<open>\<open>edits n xs ys\<close>: \<open>xs\<close> can be turned into \<open>ys\<close> by keeping elements and by \<open>n\<close>
  insertions, deletions and substitutions of one element.\<close>

inductive edits :: "nat \<Rightarrow> 'a list \<Rightarrow> 'a list \<Rightarrow> bool" where
  empty: "edits 0 [] []"
| keep: "edits n xs ys \<Longrightarrow> edits n (x # xs) (x # ys)"
| substitute: "edits n xs ys \<Longrightarrow> edits (n + 1) (x # xs) (y # ys)"
| delete: "edits n xs ys \<Longrightarrow> edits (n + 1) (x # xs) ys"
| insert: "edits n xs ys \<Longrightarrow> edits (n + 1) xs (y # ys)"

lemma editDistance_Nil2 [simp]: "editDistance xs [] = length xs"
  by (cases xs) simp_all

lemma editDistance_refl [simp]: "editDistance xs xs = 0"
  by (induction xs) simp_all

lemma edits_Nil1: "edits (length ys) [] ys"
proof (induction ys)
  case Nil
  show ?case by (simp add: edits.empty)
next
  case (Cons y ys)
  from edits.insert [OF Cons, of y] show ?case by simp
qed

lemma edits_Nil2: "edits (length xs) xs []"
proof (induction xs)
  case Nil
  show ?case by (simp add: edits.empty)
next
  case (Cons x xs)
  from edits.delete [OF Cons, of x] show ?case by simp
qed

lemma editDistance_attained: "edits (editDistance xs ys) xs ys"
proof (induction xs ys rule: editDistance.induct)
  case (1 ys)
  show ?case using edits_Nil1 [of ys] by simp
next
  case (2 x xs)
  show ?case using edits_Nil2 [of "x # xs"] by simp
next
  case (3 x xs y ys)
  let ?d = "editDistance xs (y # ys) + 1"
  let ?i = "editDistance (x # xs) ys + 1"
  let ?s = "editDistance xs ys + (if x = y then 0 else 1)"
  have d: "edits ?d (x # xs) (y # ys)" using edits.delete [OF "3.IH"(1)] .
  have i: "edits ?i (x # xs) (y # ys)" using edits.insert [OF "3.IH"(2)] .
  have s: "edits ?s (x # xs) (y # ys)"
    using edits.keep [OF "3.IH"(3), of x] edits.substitute [OF "3.IH"(3), of x y]
    by (cases "x = y") simp_all
  have "editDistance (x # xs) (y # ys) = ?d \<or> editDistance (x # xs) (y # ys) = ?i \<or>
      editDistance (x # xs) (y # ys) = ?s"
    by (simp add: min_def)
  with d i s show ?case by metis
qed

lemma editDistance_minimal: "edits n xs ys \<Longrightarrow> editDistance xs ys \<le> n"
proof (induction rule: edits.induct)
  case empty
  show ?case by simp
next
  case (keep n xs ys x)
  then show ?case by (simp add: min_def)
next
  case (substitute n xs ys x y)
  then show ?case by (simp add: min_def)
next
  case (delete n xs ys x)
  then show ?case by (cases ys) (simp_all add: min_def)
next
  case (insert n xs ys y)
  then show ?case by (cases xs) (simp_all add: min_def)
qed

lemma edits_snoc_keep: "edits n xs ys \<Longrightarrow> edits n (xs @ [x]) (ys @ [x])"
proof (induction rule: edits.induct)
  case empty
  show ?case using edits.keep [OF edits.empty, of x] by simp
qed (simp_all add: edits.intros del: One_nat_def)

lemma edits_snoc_substitute: "edits n xs ys \<Longrightarrow> edits (n + 1) (xs @ [x]) (ys @ [y])"
proof (induction rule: edits.induct)
  case empty
  show ?case using edits.substitute [OF edits.empty, of x y] by simp
next
  case (keep n xs ys z)
  from edits.keep [OF keep.IH, of z] show ?case by simp
next
  case (substitute n xs ys z w)
  from edits.substitute [OF substitute.IH, of z w] show ?case by simp
next
  case (delete n xs ys z)
  from edits.delete [OF delete.IH, of z] show ?case by simp
next
  case (insert n xs ys w)
  from edits.insert [OF insert.IH, of w] show ?case by simp
qed

lemma edits_snoc_delete: "edits n xs ys \<Longrightarrow> edits (n + 1) (xs @ [x]) ys"
proof (induction rule: edits.induct)
  case empty
  show ?case using edits.delete [OF edits.empty, of x] by simp
next
  case (keep n xs ys z)
  from edits.keep [OF keep.IH, of z] show ?case by simp
next
  case (substitute n xs ys z w)
  from edits.substitute [OF substitute.IH, of z w] show ?case by simp
next
  case (delete n xs ys z)
  from edits.delete [OF delete.IH, of z] show ?case by simp
next
  case (insert n xs ys w)
  from edits.insert [OF insert.IH, of w] show ?case by simp
qed

lemma edits_snoc_insert: "edits n xs ys \<Longrightarrow> edits (n + 1) xs (ys @ [y])"
proof (induction rule: edits.induct)
  case empty
  show ?case using edits.insert [OF edits.empty, of y] by simp
next
  case (keep n xs ys z)
  from edits.keep [OF keep.IH, of z] show ?case by simp
next
  case (substitute n xs ys z w)
  from edits.substitute [OF substitute.IH, of z w] show ?case by simp
next
  case (delete n xs ys z)
  from edits.delete [OF delete.IH, of z] show ?case by simp
next
  case (insert n xs ys w)
  from edits.insert [OF insert.IH, of w] show ?case by simp
qed

lemma edits_rev: "edits n xs ys \<Longrightarrow> edits n (rev xs) (rev ys)"
proof (induction rule: edits.induct)
  case empty
  show ?case by (simp add: edits.empty)
next
  case (keep n xs ys x)
  from edits_snoc_keep [OF keep.IH, of x] show ?case by simp
next
  case (substitute n xs ys x y)
  from edits_snoc_substitute [OF substitute.IH, of x y] show ?case by simp
next
  case (delete n xs ys x)
  from edits_snoc_delete [OF delete.IH, of x] show ?case by simp
next
  case (insert n xs ys y)
  from edits_snoc_insert [OF insert.IH, of y] show ?case by simp
qed

lemma editDistance_rev: "editDistance (rev xs) (rev ys) = editDistance xs ys"
proof (rule antisym)
  show "editDistance (rev xs) (rev ys) \<le> editDistance xs ys"
    by (rule editDistance_minimal [OF edits_rev [OF editDistance_attained]])
  have "edits (editDistance (rev xs) (rev ys)) (rev (rev xs)) (rev (rev ys))"
    by (rule edits_rev [OF editDistance_attained])
  then show "editDistance xs ys \<le> editDistance (rev xs) (rev ys)"
    using editDistance_minimal by fastforce
qed

text \<open>The entry \<open>(i, j)\<close> of the distance matrix: the distance between the first \<open>i\<close>
  elements of \<open>a\<close> and the first \<open>j\<close> elements of \<open>b\<close>.\<close>

definition prefixDistance :: "'a list \<Rightarrow> 'a list \<Rightarrow> nat \<Rightarrow> nat \<Rightarrow> nat" where
  "prefixDistance a b i j = editDistance (rev (take i a)) (rev (take j b))"

lemma prefixDistance_0_left: "j \<le> length b \<Longrightarrow> prefixDistance a b 0 j = j"
  by (simp add: prefixDistance_def)

lemma prefixDistance_0_right: "i \<le> length a \<Longrightarrow> prefixDistance a b i 0 = i"
  by (simp add: prefixDistance_def)

lemma prefixDistance_Suc:
  "i < length a \<Longrightarrow> j < length b \<Longrightarrow>
   prefixDistance a b (Suc i) (Suc j) =
     min (min (prefixDistance a b i (Suc j) + 1) (prefixDistance a b (Suc i) j + 1))
         (prefixDistance a b i j + (if a ! i = b ! j then 0 else 1))"
  by (simp add: prefixDistance_def take_Suc_conv_app_nth)

lemma prefixDistance_full:
  "prefixDistance a b (length a) (length b) = editDistance a b"
  by (simp add: prefixDistance_def editDistance_rev)

lemma foldl_fill:
  "k \<le> length xs \<Longrightarrow> foldl (\<lambda>p j. p[j := f j]) xs [0..<k] = map f [0..<k] @ drop k xs"
proof (induction k)
  case 0
  show ?case by simp
next
  case (Suc k)
  then have k: "k < length xs" by simp
  have "foldl (\<lambda>p j. p[j := f j]) xs [0..<Suc k] = (map f [0..<k] @ drop k xs)[k := f k]"
    using Suc by simp
  also have "\<dots> = map f [0..<k] @ (drop k xs)[0 := f k]"
    by (simp add: list_update_append)
  also have "(drop k xs)[0 := f k] = f k # drop (Suc k) xs"
    using k by (simp add: Cons_nth_drop_Suc [symmetric])
  finally show ?case by simp
qed

lemma levRow_inner:
  assumes i: "1 \<le> i" "i \<le> length a"
    and prev: "\<And>j. j \<le> length b \<Longrightarrow> prev ! j = prefixDistance a b (i - 1) j"
    and c0: "length curr0 = length b + 1" "curr0 ! 0 = i"
    and k: "k \<le> length b"
  shows "length (foldl (\<lambda>curr j. curr[j := min (min (prev ! j + 1) (curr ! (j - 1) + 1))
             (prev ! (j - 1) + (if a ! (i - 1) = b ! (j - 1) then 0 else 1))])
           curr0 [1..<k + 1]) = length b + 1 \<and>
         (\<forall>j \<le> k. foldl (\<lambda>curr j. curr[j := min (min (prev ! j + 1) (curr ! (j - 1) + 1))
             (prev ! (j - 1) + (if a ! (i - 1) = b ! (j - 1) then 0 else 1))])
           curr0 [1..<k + 1] ! j = prefixDistance a b i j)"
  using k
proof (induction k)
  case 0
  with c0 i show ?case by (simp add: prefixDistance_0_right)
next
  case (Suc k)
  define c where "c = foldl (\<lambda>curr j. curr[j := min (min (prev ! j + 1) (curr ! (j - 1) + 1))
             (prev ! (j - 1) + (if a ! (i - 1) = b ! (j - 1) then 0 else 1))])
           curr0 [1..<k + 1]"
  from Suc have len: "length c = length b + 1"
    and old: "\<And>j. j \<le> k \<Longrightarrow> c ! j = prefixDistance a b i j"
    by (simp_all add: c_def)
  have k: "k < length b" using Suc.prems by simp
  obtain i' where i': "i = Suc i'" using i by (cases i) simp_all
  have rec: "prefixDistance a b i (Suc k) =
      min (min (prefixDistance a b (i - 1) (Suc k) + 1) (prefixDistance a b i k + 1))
          (prefixDistance a b (i - 1) k + (if a ! (i - 1) = b ! k then 0 else 1))"
    using prefixDistance_Suc [of i' a k b] i k by (simp add: i')
  have new: "min (min (prev ! Suc k + 1) (c ! k + 1))
      (prev ! k + (if a ! (i - 1) = b ! k then 0 else 1)) = prefixDistance a b i (Suc k)"
  proof -
    have p1: "prev ! Suc k = prefixDistance a b (i - 1) (Suc k)"
      using prev [of "Suc k"] k by simp
    have p2: "prev ! k = prefixDistance a b (i - 1) k"
      using prev [of k] k by simp
    have p3: "c ! k = prefixDistance a b i k"
      using old [of k] by simp
    show ?thesis by (simp only: p1 p2 p3 rec)
  qed
  have step: "foldl (\<lambda>curr j. curr[j := min (min (prev ! j + 1) (curr ! (j - 1) + 1))
             (prev ! (j - 1) + (if a ! (i - 1) = b ! (j - 1) then 0 else 1))])
           curr0 [1..<Suc k + 1] = c[Suc k := prefixDistance a b i (Suc k)]"
  proof -
    have u: "[1..<Suc k + 1] = [1..<k + 1] @ [Suc k]" by simp
    have n: "c[Suc k := min (min (prev ! Suc k + 1) (c ! (Suc k - 1) + 1))
        (prev ! (Suc k - 1) + (if a ! (i - 1) = b ! (Suc k - 1) then 0 else 1))]
        = c[Suc k := prefixDistance a b i (Suc k)]"
      using new by (simp only: diff_Suc_1)
    show ?thesis
      unfolding u foldl_append c_def [symmetric] by (simp only: foldl.simps n)
  qed
  show ?case
    unfolding step
  proof (intro conjI allI impI)
    show "length (c[Suc k := prefixDistance a b i (Suc k)]) = length b + 1"
      using len by simp
  next
    fix j assume "j \<le> Suc k"
    then show "c[Suc k := prefixDistance a b i (Suc k)] ! j = prefixDistance a b i j"
      using old [of j] len k by (cases "j = Suc k") simp_all
  qed
qed

lemma levRow_correct:
  assumes i: "1 \<le> i" "i \<le> length a"
    and prev: "fst rows = map (prefixDistance a b (i - 1)) [0..<length b + 1]"
    and curr: "length (snd rows) = length b + 1"
  shows "fst (levRow a b rows i) = map (prefixDistance a b i) [0..<length b + 1] \<and>
         length (snd (levRow a b rows i)) = length b + 1"
proof -
  define c where "c = foldl (\<lambda>curr j. curr[j := min (min (fst rows ! j + 1) (curr ! (j - 1) + 1))
             (fst rows ! (j - 1) + (if a ! (i - 1) = b ! (j - 1) then 0 else 1))])
           ((snd rows)[0 := i]) [1..<length b + 1]"
  have p: "fst rows ! j = prefixDistance a b (i - 1) j" if "j \<le> length b" for j
    using that unfolding prev by (simp add: nth_map_upt del: upt_Suc)
  have "length c = length b + 1 \<and> (\<forall>j \<le> length b. c ! j = prefixDistance a b i j)"
    unfolding c_def
    by (rule levRow_inner [OF i p]) (simp_all add: curr)
  then have len: "length c = length b + 1"
    and cell: "\<And>j. j \<le> length b \<Longrightarrow> c ! j = prefixDistance a b i j" by simp_all
  have lp: "length (fst rows) = length b + 1" unfolding prev by simp
  have "foldl (\<lambda>prev j. prev[j := c ! j]) (fst rows) [0..<length b + 1] =
      map (\<lambda>j. c ! j) [0..<length b + 1] @ drop (length b + 1) (fst rows)"
    by (rule foldl_fill) (simp add: lp)
  also have "\<dots> = map (\<lambda>j. c ! j) [0..<length b + 1]" by (simp add: lp)
  also have "\<dots> = map (prefixDistance a b i) [0..<length b + 1]"
    by (rule map_cong) (simp_all add: cell del: upt_Suc)
  finally have "foldl (\<lambda>prev j. prev[j := c ! j]) (fst rows) [0..<length b + 1] =
      map (prefixDistance a b i) [0..<length b + 1]" .
  then show ?thesis
    unfolding levRow_def Let_def c_def [symmetric] using len by simp
qed

lemma levRows_correct:
  assumes cur: "length cur = length b + 1"
  shows "i \<le> length a \<Longrightarrow>
     fst (foldl (levRow a b) (map (prefixDistance a b 0) [0..<length b + 1], cur) [1..<i + 1])
       = map (prefixDistance a b i) [0..<length b + 1] \<and>
     length (snd (foldl (levRow a b) (map (prefixDistance a b 0) [0..<length b + 1], cur)
       [1..<i + 1])) = length b + 1"
proof (induction i)
  case 0
  show ?case using cur by simp
next
  case (Suc i)
  define rows where
    "rows = foldl (levRow a b) (map (prefixDistance a b 0) [0..<length b + 1], cur) [1..<i + 1]"
  from Suc have r: "fst rows = map (prefixDistance a b (Suc i - 1)) [0..<length b + 1]"
    "length (snd rows) = length b + 1"
    by (simp_all add: rows_def)
  have "foldl (levRow a b) (map (prefixDistance a b 0) [0..<length b + 1], cur) [1..<Suc i + 1]
      = levRow a b rows (Suc i)"
    by (simp add: rows_def)
  moreover have "fst (levRow a b rows (Suc i)) = map (prefixDistance a b (Suc i)) [0..<length b + 1] \<and>
         length (snd (levRow a b rows (Suc i))) = length b + 1"
    using Suc.prems by (intro levRow_correct r) simp_all
  ultimately show ?case by simp
qed

lemma levenshtein_editDistance: "levenshtein a b = editDistance a b"
proof (cases "a = b \<or> a = [] \<or> b = []")
  case True
  then show ?thesis by (auto simp: levenshtein_def)
next
  case False
  have init: "foldl (\<lambda>prev j. prev[j := j]) (replicate (length b + 1) 0) [0..<length b + 1]
      = map (prefixDistance a b 0) [0..<length b + 1]"
  proof -
    have "foldl (\<lambda>prev j. prev[j := j]) (replicate (length b + 1) 0) [0..<length b + 1]
        = map (\<lambda>j. j) [0..<length b + 1] @ drop (length b + 1) (replicate (length b + 1) 0)"
      by (rule foldl_fill) simp
    also have "\<dots> = map (\<lambda>j. j) [0..<length b + 1]" by simp
    also have "\<dots> = map (prefixDistance a b 0) [0..<length b + 1]"
      by (rule map_cong) (simp_all add: prefixDistance_0_left del: upt_Suc)
    finally show ?thesis .
  qed
  have "fst (foldl (levRow a b)
        (map (prefixDistance a b 0) [0..<length b + 1], replicate (length b + 1) 0)
        [1..<length a + 1]) = map (prefixDistance a b (length a)) [0..<length b + 1]"
    using levRows_correct [of "replicate (length b + 1) 0" b "length a" a] by simp
  then have "fst (foldl (levRow a b)
        (map (prefixDistance a b 0) [0..<length b + 1], replicate (length b + 1) 0)
        [1..<length a + 1]) ! length b = prefixDistance a b (length a) (length b)"
    by (simp add: nth_map_upt del: upt_Suc)
  with False show ?thesis
    unfolding levenshtein_def Let_def init
    by (simp add: prefixDistance_full del: upt_Suc replicate.simps)
qed

lemma levenshtein_fresh_arrays:
  assumes ne: "a \<noteq> b" "a \<noteq> []" "b \<noteq> []"
    and lp: "length prevInit = length b + 1" and lc: "length currInit = length b + 1"
  shows "fst (foldl (levRow a b)
           (foldl (\<lambda>prev j. prev[j := j]) prevInit [0..<length b + 1], currInit)
           [1..<length a + 1]) ! length b = levenshtein a b"
proof -
  have "foldl (\<lambda>prev j. prev[j := j]) prevInit [0..<length b + 1]
      = map (\<lambda>j. j) [0..<length b + 1] @ drop (length b + 1) prevInit"
    by (rule foldl_fill) (simp add: lp)
  also have "\<dots> = map (\<lambda>j. j) [0..<length b + 1]" by (simp add: lp)
  also have "\<dots> = map (prefixDistance a b 0) [0..<length b + 1]"
    by (rule map_cong) (simp_all add: prefixDistance_0_left del: upt_Suc)
  finally have init: "foldl (\<lambda>prev j. prev[j := j]) prevInit [0..<length b + 1]
      = map (prefixDistance a b 0) [0..<length b + 1]" .
  have "fst (foldl (levRow a b) (map (prefixDistance a b 0) [0..<length b + 1], currInit)
        [1..<length a + 1]) = map (prefixDistance a b (length a)) [0..<length b + 1]"
    using levRows_correct [OF lc, of "length a" a] by simp
  then have "fst (foldl (levRow a b) (map (prefixDistance a b 0) [0..<length b + 1], currInit)
        [1..<length a + 1]) ! length b = prefixDistance a b (length a) (length b)"
    by (simp add: nth_map_upt del: upt_Suc)
  then show ?thesis
    unfolding init by (simp only: prefixDistance_full levenshtein_editDistance)
qed

lemma ceil03_ceiling: "int (ceil03 n) = \<lceil>0.3 * real n\<rceil>"
proof -
  have "0.3 * real n = of_int (3 * int n) / of_int 10" by simp
  then have "\<lceil>0.3 * real n\<rceil> = - (- (3 * int n) div 10)"
    by (simp only: ceiling_divide_eq_div)
  also have "\<dots> = int ((3 * n + 9) div 10)" by (simp add: zdiv_int)
  finally show ?thesis by (simp add: ceil03_def)
qed

lemma length_1_nth: "length xs = 1 \<Longrightarrow> xs = [xs ! 0]"
  by (cases xs) auto

lemma classifyChange_spec:
  "classifyChange oldSpan newSpan oldSub newSub =
     (if oldSub = [] \<and> newSub \<noteq> [] then Insert
      else if newSub = [] \<and> oldSub \<noteq> [] then Delete
      else if (\<exists>w v. filter (\<lambda>t. tkind t = Word) oldSpan = [w] \<and>
                     filter (\<lambda>t. tkind t = Word) newSpan = [v] \<and>
                     0 < editDistance (tvalue w) (tvalue v) \<and>
                     int (editDistance (tvalue w) (tvalue v))
                       \<le> max 2 \<lceil>0.3 * real (max (length (tvalue w)) (length (tvalue v)))\<rceil>)
        then SpellCorrection
      else Replace)"
proof -
  define ow where "ow = filter (\<lambda>t. tkind t = Word) oldSpan"
  define nw where "nw = filter (\<lambda>t. tkind t = Word) newSpan"
  define close :: "Token \<Rightarrow> Token \<Rightarrow> bool" where
    "close w v \<longleftrightarrow> 0 < editDistance (tvalue w) (tvalue v) \<and>
       int (editDistance (tvalue w) (tvalue v))
         \<le> max 2 \<lceil>0.3 * real (max (length (tvalue w)) (length (tvalue v)))\<rceil>" for w v
  have th: "(d \<le> max 2 (ceil03 m)) = (int d \<le> max 2 \<lceil>0.3 * real m\<rceil>)" for d m
    using ceil03_ceiling [of m] by linarith
  have code: "(let d = levenshtein (tvalue (ow ! 0)) (tvalue (nw ! 0));
                   maxLen = max (length (tvalue (ow ! 0))) (length (tvalue (nw ! 0)))
               in d > 0 \<and> d \<le> max 2 (ceil03 maxLen)) = close (ow ! 0) (nw ! 0)"
    unfolding Let_def close_def levenshtein_editDistance th ..
  have eq: "(length ow = 1 \<and> length nw = 1 \<and> close (ow ! 0) (nw ! 0)) =
      (\<exists>w v. ow = [w] \<and> nw = [v] \<and> close w v)"
  proof
    assume a: "length ow = 1 \<and> length nw = 1 \<and> close (ow ! 0) (nw ! 0)"
    then have "ow = [ow ! 0]" "nw = [nw ! 0]" by (simp_all add: length_1_nth)
    with a show "\<exists>w v. ow = [w] \<and> nw = [v] \<and> close w v" by blast
  next
    assume "\<exists>w v. ow = [w] \<and> nw = [v] \<and> close w v"
    then obtain w v where "ow = [w]" "nw = [v]" "close w v" by blast
    then show "length ow = 1 \<and> length nw = 1 \<and> close (ow ! 0) (nw ! 0)" by simp
  qed
  have "classifyChange oldSpan newSpan oldSub newSub =
     (if oldSub = [] \<and> newSub \<noteq> [] then Insert
      else if newSub = [] \<and> oldSub \<noteq> [] then Delete
      else if length ow = 1 \<and> length nw = 1 \<and> close (ow ! 0) (nw ! 0) then SpellCorrection
      else Replace)"
    unfolding classifyChange_def ow_def [symmetric] nw_def [symmetric]
    by (simp only: Let_def [of ow] Let_def [of nw] code length_0_conv length_greater_0_conv)
  then show ?thesis
    unfolding eq unfolding ow_def nw_def close_def .
qed

lemma diffLoop_classified:
  "d \<in> set (diffLoop ot nt a b rs) \<Longrightarrow>
   \<exists>ch \<in> set rs. oldText d \<noteq> newText d \<and>
     changeType d = classifyChange (slice a (oldTokStart ch) (oldTokEnd ch))
       (slice b (newTokStart ch) (newTokEnd ch)) (oldText d) (newText d)"
proof -
  assume "d \<in> set (diffLoop ot nt a b rs)"
  from diffLoop_set [OF this] obtain ch where
    ch: "ch \<in> set rs" and b: "buildDiff ot nt a b ch = Some d" by blast
  from b have "oldText d \<noteq> newText d \<and>
     changeType d = classifyChange (slice a (oldTokStart ch) (oldTokEnd ch))
       (slice b (newTokStart ch) (newTokEnd ch)) (oldText d) (newText d)"
    unfolding buildDiff_def Let_def by (auto split: if_splits)
  with ch show ?thesis by blast
qed

text \<open>
  Claim C4. The classifier returns \<^verbatim>\<open>insert\<close> when the old substring is empty and the new
  one is not, \<^verbatim>\<open>delete\<close> when the new substring is empty and the old one is not, and
  otherwise \<^verbatim>\<open>spell-correction\<close> exactly when each token span holds exactly one word
  token and the edit distance \<open>d\<close> of the two word values satisfies
  \<open>0 < d \<le> max(2, ceil(0.3 * maxLen))\<close>, and \<^verbatim>\<open>replace\<close> in every other case. The distance
  is the Levenshtein distance: it is the cost of some script of insertions, deletions and
  substitutions, and no script is cheaper. Every returned diff carries the class of its
  own range, token spans and substrings.
\<close>

theorem change_classification:
  "classifyChange oldSpan newSpan oldSub newSub =
     (if oldSub = [] \<and> newSub \<noteq> [] then Insert
      else if newSub = [] \<and> oldSub \<noteq> [] then Delete
      else if (\<exists>w v. filter (\<lambda>t. tkind t = Word) oldSpan = [w] \<and>
                     filter (\<lambda>t. tkind t = Word) newSpan = [v] \<and>
                     0 < editDistance (tvalue w) (tvalue v) \<and>
                     int (editDistance (tvalue w) (tvalue v))
                       \<le> max 2 \<lceil>0.3 * real (max (length (tvalue w)) (length (tvalue v)))\<rceil>)
        then SpellCorrection
      else Replace) \<and>
   edits (editDistance (x :: ustring) y) x y \<and>
   (\<forall>n. edits n x y \<longrightarrow> editDistance x y \<le> n) \<and>
   (\<forall>d \<in> set (getTextDiffs nfc isLNM segmenter oldTextInput newTextInput).
      let oldTokens = tokenize nfc isLNM segmenter (normalize nfc oldTextInput);
          newTokens = tokenize nfc isLNM segmenter (normalize nfc newTextInput)
      in \<exists>ch \<in> set (mergedChangesOf oldTokens newTokens).
           oldText d \<noteq> newText d \<and>
           changeType d =
             classifyChange (slice oldTokens (oldTokStart ch) (oldTokEnd ch))
               (slice newTokens (newTokStart ch) (newTokEnd ch)) (oldText d) (newText d))"
proof (intro conjI ballI allI impI)
  show "classifyChange oldSpan newSpan oldSub newSub =
     (if oldSub = [] \<and> newSub \<noteq> [] then Insert
      else if newSub = [] \<and> oldSub \<noteq> [] then Delete
      else if (\<exists>w v. filter (\<lambda>t. tkind t = Word) oldSpan = [w] \<and>
                     filter (\<lambda>t. tkind t = Word) newSpan = [v] \<and>
                     0 < editDistance (tvalue w) (tvalue v) \<and>
                     int (editDistance (tvalue w) (tvalue v))
                       \<le> max 2 \<lceil>0.3 * real (max (length (tvalue w)) (length (tvalue v)))\<rceil>)
        then SpellCorrection
      else Replace)"
    by (rule classifyChange_spec)
next
  show "edits (editDistance x y) x y" by (rule editDistance_attained)
next
  fix n assume "edits n x y"
  then show "editDistance x y \<le> n" by (rule editDistance_minimal)
next
  fix d assume "d \<in> set (getTextDiffs nfc isLNM segmenter oldTextInput newTextInput)"
  then have "d \<in> set (diffLoop (normalize nfc oldTextInput) (normalize nfc newTextInput)
      (tokenize nfc isLNM segmenter (normalize nfc oldTextInput))
      (tokenize nfc isLNM segmenter (normalize nfc newTextInput))
      (mergedChangesOf (tokenize nfc isLNM segmenter (normalize nfc oldTextInput))
         (tokenize nfc isLNM segmenter (normalize nfc newTextInput))))"
    unfolding getTextDiffs_def Let_def by (simp split: if_splits)
  from diffLoop_classified [OF this]
  show "let oldTokens = tokenize nfc isLNM segmenter (normalize nfc oldTextInput);
          newTokens = tokenize nfc isLNM segmenter (normalize nfc newTextInput)
      in \<exists>ch \<in> set (mergedChangesOf oldTokens newTokens).
           oldText d \<noteq> newText d \<and>
           changeType d =
             classifyChange (slice oldTokens (oldTokStart ch) (oldTokEnd ch))
               (slice newTokens (newTokStart ch) (newTokEnd ch)) (oldText d) (newText d)"
    unfolding Let_def .
qed

text \<open>The diffs of the pairs \<^verbatim>\<open>"color"\<close>, \<^verbatim>\<open>"colour"\<close> and \<^verbatim>\<open>"cat"\<close>, \<^verbatim>\<open>"dog"\<close>.\<close>

lemma color_colour:
  "classifyChange
     [\<lparr>tkind = Word, tvalue = ascii ''color'', tstart = 0, tend = 5\<rparr>]
     [\<lparr>tkind = Word, tvalue = ascii ''colour'', tstart = 0, tend = 6\<rparr>]
     (ascii ''color'') (ascii ''colour'') = SpellCorrection"
  by code_simp

theorem change_classification_witness:
  "(\<exists>w v. filter (\<lambda>t. tkind t = Word)
            [\<lparr>tkind = Word, tvalue = ascii ''color'', tstart = 0, tend = 5\<rparr>] = [w] \<and>
          filter (\<lambda>t. tkind t = Word)
            [\<lparr>tkind = Word, tvalue = ascii ''colour'', tstart = 0, tend = 6\<rparr>] = [v] \<and>
          0 < editDistance (tvalue w) (tvalue v) \<and>
          int (editDistance (tvalue w) (tvalue v))
            \<le> max 2 \<lceil>0.3 * real (max (length (tvalue w)) (length (tvalue v)))\<rceil>) \<and>
   editDistance (ascii ''cat'') (ascii ''cot'') \<le> 1 \<and>
   changeType \<lparr>oldText = ascii ''cat'', position = \<lparr>startIndex = 0, endIndex = 3\<rparr>,
       newText = ascii ''dog'', changeType = Replace\<rparr> = Replace"
proof -
  note t = change_classification
    [of "[\<lparr>tkind = Word, tvalue = ascii ''color'', tstart = 0, tend = 5\<rparr>]"
        "[\<lparr>tkind = Word, tvalue = ascii ''colour'', tstart = 0, tend = 6\<rparr>]"
        "ascii ''color''" "ascii ''colour''" "ascii ''cat''" "ascii ''cot''"
        "\<lambda>s. s" "\<lambda>c. 97 \<le> c \<and> c \<le> 122" "\<lambda>s. None" "ascii ''cat''" "ascii ''dog''"]
  have ne: "\<not> (ascii ''color'' = [] \<and> ascii ''colour'' \<noteq> [])"
    "\<not> (ascii ''colour'' = [] \<and> ascii ''color'' \<noteq> [])"
    by (simp_all add: ascii_def)
  have a: "\<exists>w v. filter (\<lambda>t. tkind t = Word)
            [\<lparr>tkind = Word, tvalue = ascii ''color'', tstart = 0, tend = 5\<rparr>] = [w] \<and>
          filter (\<lambda>t. tkind t = Word)
            [\<lparr>tkind = Word, tvalue = ascii ''colour'', tstart = 0, tend = 6\<rparr>] = [v] \<and>
          0 < editDistance (tvalue w) (tvalue v) \<and>
          int (editDistance (tvalue w) (tvalue v))
            \<le> max 2 \<lceil>0.3 * real (max (length (tvalue w)) (length (tvalue v)))\<rceil>"
  proof (rule ccontr)
    assume n: "\<not> ?thesis"
    have "classifyChange
       [\<lparr>tkind = Word, tvalue = ascii ''color'', tstart = 0, tend = 5\<rparr>]
       [\<lparr>tkind = Word, tvalue = ascii ''colour'', tstart = 0, tend = 6\<rparr>]
       (ascii ''color'') (ascii ''colour'') = Replace"
      by (simp only: t [THEN conjunct1] ne n if_False)
    with color_colour show False by simp
  qed
  have e: "edits (0 + 1) (ascii ''cat'') (ascii ''cot'')"
    unfolding ascii_def list.map
    by (intro edits.keep edits.substitute edits.empty)
  from t [THEN conjunct2, THEN conjunct2, THEN conjunct1, rule_format, OF e]
  have b: "editDistance (ascii ''cat'') (ascii ''cot'') \<le> 1" by simp
  show ?thesis using a b by simp
qed

section \<open>The tokens tile the normalized string\<close>

text \<open>The tokens from offset \<open>off\<close> on are contiguous, non-empty, carry the substring between
  their offsets, and end at the end of the string.\<close>

fun tiles :: "ustring \<Rightarrow> nat \<Rightarrow> Token list \<Rightarrow> bool" where
  "tiles s off [] = (off = length s)"
| "tiles s off (t # ts) =
     (tstart t = off \<and> off < tend t \<and> tend t \<le> length s \<and>
      tvalue t = slice s (tstart t) (tend t) \<and> tiles s (tend t) ts)"

text \<open>What the code relies on in the segments it is given, from the cursor on: each segment
  is the non-empty substring at its index, and the segments come in order without
  overlap. (ECMA-402 promises more: no gaps, and the last segment ends the string.)\<close>

fun segmentsOk :: "ustring \<Rightarrow> nat \<Rightarrow> Segment list \<Rightarrow> bool" where
  "segmentsOk s cursor [] = True"
| "segmentsOk s cursor (g # gs) =
     (cursor \<le> index g \<and> segment g \<noteq> [] \<and> index g + length (segment g) \<le> length s \<and>
      segment g = slice s (index g) (index g + length (segment g)) \<and>
      segmentsOk s (index g + length (segment g)) gs)"

definition segmenterOk :: "(ustring \<Rightarrow> Segment list option) \<Rightarrow> ustring \<Rightarrow> bool" where
  "segmenterOk segmenter s =
     (case segmenter s of None \<Rightarrow> True | Some segments \<Rightarrow> segmentsOk s 0 segments)"

text \<open>Each token is a maximal run of one class: its code points are letters, numbers or
  marks exactly when it is a word token; neighbours differ in kind; and the tokens do not
  split a code point of the string.\<close>

definition oneClass :: "(nat \<Rightarrow> bool) \<Rightarrow> Token \<Rightarrow> bool" where
  "oneClass isLNM t = list_all (\<lambda>c. isLNM c = (tkind t = Word)) (codePoints (tvalue t))"

fun alternating :: "Token list \<Rightarrow> bool" where
  "alternating (t # u # ts) = (tkind t \<noteq> tkind u \<and> alternating (u # ts))"
| "alternating ts = True"

definition maximalRuns :: "(nat \<Rightarrow> bool) \<Rightarrow> ustring \<Rightarrow> Token list \<Rightarrow> bool" where
  "maximalRuns isLNM s ts =
     (list_all (oneClass isLNM) ts \<and> alternating ts \<and>
      concat (map (\<lambda>t. codePoints (tvalue t)) ts) = codePoints s)"

lemma slice_length: "b \<le> length xs \<Longrightarrow> length (slice xs a b) = b - a"
  by (simp add: slice_def)

lemma matchRun_other:
  "s \<noteq> [] \<Longrightarrow> matchRun p s = 0 \<Longrightarrow> 0 < matchRun (\<lambda>c. \<not> p c) s"
  by (cases "(p, s)" rule: matchRun.cases) (auto split: if_splits)

lemma WORD_REGEX_exec_end: "length s \<le> i \<Longrightarrow> WORD_REGEX_exec isLNM s i = None"
  by (subst WORD_REGEX_exec.simps) simp

text \<open>The length of the match at \<open>i\<close>: the word run, or else the separator run.\<close>

definition runAt :: "(nat \<Rightarrow> bool) \<Rightarrow> ustring \<Rightarrow> nat \<Rightarrow> nat" where
  "runAt isLNM s i =
     (if 0 < matchRun isLNM (drop i s) then matchRun isLNM (drop i s)
      else matchRun (\<lambda>c. \<not> isLNM c) (drop i s))"

lemma runAt_pos: "i < length s \<Longrightarrow> 0 < runAt isLNM s i"
  unfolding runAt_def using matchRun_other [of "drop i s" isLNM] by auto

lemma runAt_le: "i + runAt isLNM s i \<le> length s \<or> length s \<le> i"
  unfolding runAt_def
  using matchRun_le [of isLNM "drop i s"] matchRun_le [of "\<lambda>c. \<not> isLNM c" "drop i s"]
  by auto

lemma WORD_REGEX_exec_at:
  "i < length s \<Longrightarrow> WORD_REGEX_exec isLNM s i = Some (i, runAt isLNM s i)"
  using runAt_pos [of i s isLNM]
  by (subst WORD_REGEX_exec.simps) (auto simp: runAt_def)

lemma regexTokens_end: "length s \<le> i \<Longrightarrow> regexTokens isLNM s i = []"
  by (subst regexTokens.simps) (simp add: WORD_REGEX_exec_end)

text \<open>Whatever \<^verbatim>\<open>lastIndex\<close> the loop is entered with, it leaves 0 behind; so every call of
  \<^verbatim>\<open>tokenize\<close> finds the 0 the module starts with, and the tokens are those of
  \<open>regexTokens\<close> from 0.\<close>

lemma regexLoop_leaves_zero:
  "regexLoop isLNM normalized lastIndex = (regexTokens isLNM normalized lastIndex, 0)"
proof (induction isLNM normalized lastIndex rule: regexTokens.induct)
  case (1 isLNM normalized lastIndex)
  show ?case
  proof (cases "WORD_REGEX_exec isLNM normalized lastIndex")
    case None
    then show ?thesis
      by (subst regexLoop.simps, subst regexTokens.simps) simp
  next
    case (Some m)
    obtain idx len where m: "m = (idx, len)" by (cases m)
    from "1.IH" [OF Some m [symmetric] refl refl refl refl]
    have "regexLoop isLNM normalized (idx + len) = (regexTokens isLNM normalized (idx + len), 0)" .
    with Some m show ?thesis
      by (subst regexLoop.simps, subst regexTokens.simps) (simp add: Let_def)
  qed
qed

lemma regexTokens_at:
  "i < length s \<Longrightarrow>
   regexTokens isLNM s i =
     \<lparr>tkind = (if testLNM isLNM (slice s i (i + runAt isLNM s i)) then Word else Sep),
       tvalue = slice s i (i + runAt isLNM s i), tstart = i, tend = i + runAt isLNM s i\<rparr>
     # regexTokens isLNM s (i + runAt isLNM s i)"
proof -
  assume i: "i < length s"
  with runAt_le [of i isLNM s] have "i + runAt isLNM s i \<le> length s" by simp
  then have "length (slice s i (i + runAt isLNM s i)) = runAt isLNM s i"
    by (simp add: slice_length)
  then show ?thesis
    by (subst regexTokens.simps) (simp add: WORD_REGEX_exec_at [OF i] Let_def)
qed

lemma regexTokens_tiles: "i \<le> length s \<Longrightarrow> tiles s i (regexTokens isLNM s i)"
proof (induction "length s - i" arbitrary: i rule: less_induct)
  case less
  show ?case
  proof (cases "i < length s")
    case False
    with less.prems show ?thesis by (simp add: regexTokens_end)
  next
    case True
    from runAt_pos [OF True] runAt_le [of i isLNM s] True
    have r: "0 < runAt isLNM s i" "i + runAt isLNM s i \<le> length s" by simp_all
    then have "tiles s (i + runAt isLNM s i) (regexTokens isLNM s (i + runAt isLNM s i))"
      using True by (intro less.hyps) simp_all
    with r show ?thesis by (simp add: regexTokens_at [OF True])
  qed
qed

lemma segmentTokens_tiles:
  "segmentsOk s c gs \<Longrightarrow> c \<le> length s \<Longrightarrow> tiles s c (segmentTokens isLNM s gs c)"
proof (induction gs arbitrary: c)
  case Nil
  then show ?case by (simp add: slice_def)
next
  case (Cons g gs)
  from Cons.prems have g: "c \<le> index g" "segment g \<noteq> []"
    "index g + length (segment g) \<le> length s"
    "segment g = slice s (index g) (index g + length (segment g))"
    "segmentsOk s (index g + length (segment g)) gs" by simp_all
  have rest: "tiles s (index g + length (segment g))
      (segmentTokens isLNM s gs (index g + length (segment g)))"
    by (rule Cons.IH [OF g(5) g(3)])
  have pos: "index g < index g + length (segment g)" using g(2) by simp
  show ?case
  proof (cases "c < index g")
    case True
    with rest g pos show ?thesis by (simp add: Let_def)
  next
    case False
    with g(1) have "index g = c" by simp
    with rest g pos show ?thesis by (simp add: Let_def)
  qed
qed

lemma tokenize_tiles:
  "segmenterOk segmenter (normalize nfc text) \<Longrightarrow>
   tiles (normalize nfc text) 0 (tokenize nfc isLNM segmenter text)"
  unfolding tokenize_def Let_def segmenterOk_def
  by (auto split: option.splits intro: regexTokens_tiles segmentTokens_tiles)

lemma tiles_Nil_iff: "tiles s off ts \<Longrightarrow> (ts = [] \<longleftrightarrow> off = length s)"
  by (cases ts) auto

lemma tiles_last: "tiles s off ts \<Longrightarrow> ts \<noteq> [] \<Longrightarrow> tend (last ts) = length s"
  by (induction ts arbitrary: off) (auto simp: tiles_Nil_iff)

lemma tiles_hd: "tiles s off ts \<Longrightarrow> ts \<noteq> [] \<Longrightarrow> tstart (hd ts) = off"
  by (cases ts) auto

lemma tiles_adjacent:
  "tiles s off ts \<Longrightarrow> i + 1 < length ts \<Longrightarrow> tend (ts ! i) = tstart (ts ! (i + 1))"
proof (induction ts arbitrary: off i)
  case Nil
  then show ?case by simp
next
  case (Cons t ts)
  show ?case
  proof (cases i)
    case 0
    with Cons.prems show ?thesis by (cases ts) auto
  next
    case (Suc k)
    with Cons.prems Cons.IH [of "tend t" k] show ?thesis by simp
  qed
qed

lemma tiles_token:
  "tiles s off ts \<Longrightarrow> t \<in> set ts \<Longrightarrow>
   off \<le> tstart t \<and> tstart t < tend t \<and> tend t \<le> length s \<and>
   tvalue t = slice s (tstart t) (tend t)"
proof (induction ts arbitrary: off)
  case Nil
  then show ?case by simp
next
  case (Cons u ts)
  show ?case
  proof (cases "t = u")
    case True
    with Cons.prems show ?thesis by simp
  next
    case False
    with Cons.prems have "tiles s (tend u) ts" "t \<in> set ts" by simp_all
    from Cons.IH [OF this] Cons.prems(1) show ?thesis by simp
  qed
qed

text \<open>The token that the locale-aware loop pushes for a segment: the segment's text at the
  segment's index, a word when \<^verbatim>\<open>isWordLike\<close> says so or, where the engine leaves
  \<^verbatim>\<open>isWordLike\<close> undefined, when the segment contains a letter, a number or a mark.\<close>

definition segmentToken :: "(nat \<Rightarrow> bool) \<Rightarrow> Segment \<Rightarrow> Token" where
  "segmentToken isLNM seg =
     \<lparr>tkind = (if (case isWordLike seg of Some w \<Rightarrow> w | None \<Rightarrow> testLNM isLNM (segment seg))
               then Word else Sep),
      tvalue = segment seg, tstart = index seg, tend = index seg + length (segment seg)\<rparr>"

lemma segmentsOk_index_ge: "segmentsOk s c gs \<Longrightarrow> g \<in> set gs \<Longrightarrow> c \<le> index g"
proof (induction gs arbitrary: c)
  case Nil
  then show ?case by simp
next
  case (Cons h gs)
  show ?case
  proof (cases "g = h")
    case True
    with Cons.prems show ?thesis by simp
  next
    case False
    with Cons.prems have "segmentsOk s (index h + length (segment h)) gs" "g \<in> set gs"
      "c \<le> index h" by simp_all
    from Cons.IH [OF this(1,2)] this(3) show ?thesis by simp
  qed
qed

lemma segmentTokens_start_ge:
  "segmentsOk s c gs \<Longrightarrow> c \<le> length s \<Longrightarrow> t \<in> set (segmentTokens isLNM s gs c) \<Longrightarrow>
   c \<le> tstart t"
  using tiles_token [OF segmentTokens_tiles] by blast

lemma segmentTokens_segments:
  "segmentsOk s c gs \<Longrightarrow> c \<le> length s \<Longrightarrow>
   filter (\<lambda>t. tstart t \<in> set (map index gs)) (segmentTokens isLNM s gs c)
     = map (segmentToken isLNM) gs"
proof (induction gs arbitrary: c)
  case Nil
  then show ?case by simp
next
  case (Cons g gs)
  from Cons.prems have g: "c \<le> index g" "segment g \<noteq> []"
    "index g + length (segment g) \<le> length s"
    "segmentsOk s (index g + length (segment g)) gs" by simp_all
  define e where "e = index g + length (segment g)"
  have pos: "index g < e" using g(2) by (simp add: e_def)
  have later: "index g \<noteq> tstart t" if "t \<in> set (segmentTokens isLNM s gs e)" for t
  proof -
    from that have "e \<le> tstart t"
      unfolding e_def by (rule segmentTokens_start_ge [OF g(4) g(3)])
    with pos show ?thesis by linarith
  qed
  have rest: "filter (\<lambda>t. tstart t \<in> set (map index (g # gs))) (segmentTokens isLNM s gs e)
      = map (segmentToken isLNM) gs"
  proof -
    have "filter (\<lambda>t. tstart t \<in> set (map index (g # gs))) (segmentTokens isLNM s gs e)
        = filter (\<lambda>t. tstart t \<in> set (map index gs)) (segmentTokens isLNM s gs e)"
    proof (rule filter_cong [OF refl])
      fix t assume "t \<in> set (segmentTokens isLNM s gs e)"
      from later [OF this] have "tstart t \<noteq> index g" by simp
      then show "(tstart t \<in> set (map index (g # gs))) = (tstart t \<in> set (map index gs))"
        by simp
    qed
    also have "\<dots> = map (segmentToken isLNM) gs"
      unfolding e_def by (rule Cons.IH [OF g(4) g(3)])
    finally show ?thesis .
  qed
  have early: "c \<notin> set (map index (g # gs))" if "c < index g"
  proof
    assume "c \<in> set (map index (g # gs))"
    then obtain h where h: "h \<in> set (g # gs)" "index h = c" by auto
    from segmentsOk_index_ge [OF Cons.prems(1) h(1)] h(2) that
    have "h \<noteq> g" by auto
    with h(1) have "h \<in> set gs" by simp
    from segmentsOk_index_ge [OF g(4) this] have "e \<le> index h" by (simp add: e_def)
    with h(2) pos that show False by linarith
  qed
  show ?case
  proof (cases "c < index g")
    case True
    with rest early [OF True] show ?thesis
      by (simp add: Let_def segmentToken_def e_def)
  next
    case False
    with rest show ?thesis
      by (simp add: Let_def segmentToken_def e_def)
  qed
qed

lemma segmentTokens_gaps:
  "segmentsOk s c gs \<Longrightarrow> c \<le> length s \<Longrightarrow> t \<in> set (segmentTokens isLNM s gs c) \<Longrightarrow>
   tstart t \<notin> set (map index gs) \<Longrightarrow>
   tkind t = Sep \<and> (tend t \<in> set (map index gs) \<or> tend t = length s)"
proof (induction gs arbitrary: c)
  case Nil
  then show ?case by (simp split: if_splits)
next
  case (Cons g gs)
  from Cons.prems have g: "c \<le> index g"
    "index g + length (segment g) \<le> length s"
    "segmentsOk s (index g + length (segment g)) gs" by simp_all
  from Cons.prems(4) have n: "tstart t \<noteq> index g" "tstart t \<notin> set (map index gs)" by auto
  from Cons.prems(3) n(1)
  have "(c < index g \<and> t = \<lparr>tkind = Sep, tvalue = slice s c (index g), tstart = c, tend = index g\<rparr>)
      \<or> t \<in> set (segmentTokens isLNM s gs (index g + length (segment g)))"
    by (auto simp: Let_def split: if_splits)
  then show ?case
  proof
    assume "c < index g \<and> t = \<lparr>tkind = Sep, tvalue = slice s c (index g), tstart = c, tend = index g\<rparr>"
    then show ?thesis by simp
  next
    assume "t \<in> set (segmentTokens isLNM s gs (index g + length (segment g)))"
    from Cons.IH [OF g(3) g(2) this n(2)] show ?thesis by auto
  qed
qed

lemma codePoints_Cons_single:
  "(xs \<noteq> [] \<Longrightarrow> \<not> (isLead c \<and> isTrail (hd xs))) \<Longrightarrow> codePoints (c # xs) = unat c # codePoints xs"
  by (cases xs) auto

lemma matchRun_split:
  "codePoints s = codePoints (take (matchRun p s) s) @ codePoints (drop (matchRun p s) s)"
proof (induction p s rule: matchRun.induct)
  case (1 p)
  show ?case by simp
next
  case (2 p c)
  show ?case by simp
next
  case (3 p c d s)
  show ?case
  proof (cases "isLead c \<and> isTrail d")
    case True
    with 3 show ?thesis by simp
  next
    case False
    show ?thesis
    proof (cases "p (unat c)")
      case np: False
      with False show ?thesis by auto
    next
      case True
      have "codePoints (c # take (matchRun p (d # s)) (d # s)) =
          unat c # codePoints (take (matchRun p (d # s)) (d # s))"
        using False by (intro codePoints_Cons_single) (cases "matchRun p (d # s)", auto)
      moreover have nf: "(isLead c \<and> isTrail d) = False" using False by simp
      ultimately show ?thesis using True "3.IH"(2) [OF False True] by (simp add: nf)
    qed
  qed
qed

lemma matchRun_all: "list_all p (codePoints (take (matchRun p s) s))"
proof (induction p s rule: matchRun.induct)
  case (1 p)
  show ?case by simp
next
  case (2 p c)
  show ?case by simp
next
  case (3 p c d s)
  show ?case
  proof (cases "isLead c \<and> isTrail d")
    case True
    with 3 show ?thesis by simp
  next
    case False
    show ?thesis
    proof (cases "p (unat c)")
      case np: False
      with False show ?thesis by auto
    next
      case True
      have "codePoints (c # take (matchRun p (d # s)) (d # s)) =
          unat c # codePoints (take (matchRun p (d # s)) (d # s))"
        using False by (intro codePoints_Cons_single) (cases "matchRun p (d # s)", auto)
      moreover have nf: "(isLead c \<and> isTrail d) = False" using False by simp
      ultimately show ?thesis using True "3.IH"(2) [OF False True] by (simp add: nf)
    qed
  qed
qed

lemma matchRun_maximal: "matchRun p (drop (matchRun p s) s) = 0"
  by (induction p s rule: matchRun.induct) auto

lemma codePoints_nonempty: "s \<noteq> [] \<Longrightarrow> codePoints s \<noteq> []"
  by (cases s rule: codePoints.cases) auto

lemma matchRun_nonempty: "0 < matchRun p s \<Longrightarrow> codePoints (take (matchRun p s) s) \<noteq> []"
proof -
  assume r: "0 < matchRun p s"
  then have "s \<noteq> []" by auto
  with r have "take (matchRun p s) s \<noteq> []" by simp
  then show ?thesis by (rule codePoints_nonempty)
qed

lemma slice_take_drop: "slice s i (i + r) = take r (drop i s)"
  by (simp add: slice_def)

lemma regexTokens_head:
  assumes i: "i < length s"
  shows "regexTokens isLNM s i =
     \<lparr>tkind = (if 0 < matchRun isLNM (drop i s) then Word else Sep),
       tvalue = take (runAt isLNM s i) (drop i s), tstart = i, tend = i + runAt isLNM s i\<rparr>
     # regexTokens isLNM s (i + runAt isLNM s i) \<and>
     list_all (\<lambda>c. isLNM c = (0 < matchRun isLNM (drop i s)))
       (codePoints (take (runAt isLNM s i) (drop i s)))"
proof (cases "0 < matchRun isLNM (drop i s)")
  case True
  then have r: "runAt isLNM s i = matchRun isLNM (drop i s)" by (simp add: runAt_def)
  have a: "list_all isLNM (codePoints (take (runAt isLNM s i) (drop i s)))"
    unfolding r by (rule matchRun_all)
  have "codePoints (take (runAt isLNM s i) (drop i s)) \<noteq> []"
    unfolding r by (rule matchRun_nonempty [OF True])
  with a have "testLNM isLNM (take (runAt isLNM s i) (drop i s))"
    unfolding testLNM_def
    by (cases "codePoints (take (runAt isLNM s i) (drop i s))") simp_all
  with True a show ?thesis
    by (simp add: regexTokens_at [OF i] slice_take_drop)
next
  case False
  then have r: "runAt isLNM s i = matchRun (\<lambda>c. \<not> isLNM c) (drop i s)" by (simp add: runAt_def)
  have a: "list_all (\<lambda>c. \<not> isLNM c) (codePoints (take (runAt isLNM s i) (drop i s)))"
    unfolding r by (rule matchRun_all)
  then have "\<not> testLNM isLNM (take (runAt isLNM s i) (drop i s))"
    unfolding testLNM_def by (simp add: list_all_iff list_ex_iff)
  with False a show ?thesis
    by (simp add: regexTokens_at [OF i] slice_take_drop)
qed

lemma regexTokens_maximal:
  "i \<le> length s \<Longrightarrow>
   list_all (oneClass isLNM) (regexTokens isLNM s i) \<and>
   alternating (regexTokens isLNM s i) \<and>
   concat (map (\<lambda>t. codePoints (tvalue t)) (regexTokens isLNM s i)) = codePoints (drop i s)"
proof (induction "length s - i" arbitrary: i rule: less_induct)
  case less
  show ?case
  proof (cases "i < length s")
    case False
    with less.prems show ?thesis by (simp add: regexTokens_end)
  next
    case True
    define r where "r = runAt isLNM s i"
    define t where "t = \<lparr>tkind = (if 0 < matchRun isLNM (drop i s) then Word else Sep),
       tvalue = take r (drop i s), tstart = i, tend = i + r\<rparr>"
    from runAt_pos [OF True] runAt_le [of i isLNM s] True
    have r: "0 < r" "i + r \<le> length s" by (simp_all add: r_def)
    from regexTokens_head [OF True, of isLNM]
    have unf: "regexTokens isLNM s i = t # regexTokens isLNM s (i + r)"
      and cls: "list_all (\<lambda>c. isLNM c = (0 < matchRun isLNM (drop i s)))
        (codePoints (take r (drop i s)))"
      by (simp_all add: r_def t_def)
    have IH: "list_all (oneClass isLNM) (regexTokens isLNM s (i + r)) \<and>
        alternating (regexTokens isLNM s (i + r)) \<and>
        concat (map (\<lambda>t. codePoints (tvalue t)) (regexTokens isLNM s (i + r)))
          = codePoints (drop (i + r) s)"
      using r True by (intro less.hyps) simp_all
    have one: "oneClass isLNM t"
      using cls unfolding oneClass_def t_def
      by (cases "0 < matchRun isLNM (drop i s)") simp_all
    have split: "codePoints (drop i s) =
        codePoints (take r (drop i s)) @ codePoints (drop (i + r) s)"
    proof (cases "0 < matchRun isLNM (drop i s)")
      case True
      then have "r = matchRun isLNM (drop i s)" by (simp add: r_def runAt_def)
      with matchRun_split [of "drop i s" isLNM] show ?thesis by (simp add: add.commute)
    next
      case False
      then have "r = matchRun (\<lambda>c. \<not> isLNM c) (drop i s)" by (simp add: r_def runAt_def)
      with matchRun_split [of "drop i s" "\<lambda>c. \<not> isLNM c"] show ?thesis
        by (simp add: add.commute)
    qed
    have alt: "alternating (t # regexTokens isLNM s (i + r))"
    proof (cases "i + r < length s")
      case False
      then show ?thesis by (simp add: regexTokens_end)
    next
      case next_in: True
      from regexTokens_head [OF next_in, of isLNM] obtain u us where
        u: "regexTokens isLNM s (i + r) = u # us"
        and ku: "tkind u = (if 0 < matchRun isLNM (drop (i + r) s) then Word else Sep)"
        by simp
      have "tkind t \<noteq> tkind u"
      proof (cases "0 < matchRun isLNM (drop i s)")
        case True
        then have "r = matchRun isLNM (drop i s)" by (simp add: r_def runAt_def)
        with matchRun_maximal [of isLNM "drop i s"]
        have "matchRun isLNM (drop (i + r) s) = 0" by (simp add: add.commute)
        with True ku show ?thesis by (simp add: t_def)
      next
        case False
        then have "r = matchRun (\<lambda>c. \<not> isLNM c) (drop i s)" by (simp add: r_def runAt_def)
        with matchRun_maximal [of "\<lambda>c. \<not> isLNM c" "drop i s"]
        have "matchRun (\<lambda>c. \<not> isLNM c) (drop (i + r) s) = 0" by (simp add: add.commute)
        with matchRun_other [of "drop (i + r) s" "\<lambda>c. \<not> isLNM c"] next_in
        have "0 < matchRun isLNM (drop (i + r) s)" by simp
        with False ku show ?thesis by (simp add: t_def)
      qed
      with IH u show ?thesis by simp
    qed
    from one alt IH split show ?thesis
      unfolding unf by (simp add: t_def)
  qed
qed

section \<open>An engine for ASCII text\<close>

text \<open>What the engine does on ASCII text: the normal form of an ASCII string is the string
  itself, the letters and digits are the ASCII code points of category L, N or M, and a
  word-granularity segmenter returns \<^verbatim>\<open>"a, b"\<close> as the segments \<^verbatim>\<open>"a"\<close>, \<^verbatim>\<open>","\<close>, \<^verbatim>\<open>" "\<close>,
  \<^verbatim>\<open>"b"\<close> (UAX 29 puts a word boundary between the comma and the space).\<close>

definition nfcAscii :: "ustring \<Rightarrow> ustring" where
  "nfcAscii s = s"

definition asciiLNM :: "nat \<Rightarrow> bool" where
  "asciiLNM c = ((48 \<le> c \<and> c \<le> 57) \<or> (65 \<le> c \<and> c \<le> 90) \<or> (97 \<le> c \<and> c \<le> 122))"

definition noSegmenter :: "ustring \<Rightarrow> Segment list option" where
  "noSegmenter s = None"

definition commaSegmenter :: "ustring \<Rightarrow> Segment list option" where
  "commaSegmenter s =
     (if s = ascii ''a, b''
      then Some [\<lparr>segment = ascii ''a'', index = 0, isWordLike = Some True\<rparr>,
                 \<lparr>segment = ascii '','', index = 1, isWordLike = Some False\<rparr>,
                 \<lparr>segment = ascii '' '', index = 2, isWordLike = Some False\<rparr>,
                 \<lparr>segment = ascii ''b'', index = 3, isWordLike = Some True\<rparr>]
      else None)"

text \<open>A segmenter that reports the words only, without \<^verbatim>\<open>isWordLike\<close>, and leaves the text
  between them to the tokenizer, which provides for it at lines 51-54 and 59-61.\<close>

definition wordsOnlySegmenter :: "ustring \<Rightarrow> Segment list option" where
  "wordsOnlySegmenter s =
     Some (map (\<lambda>t. \<lparr>segment = tvalue t, index = tstart t, isWordLike = None\<rparr>)
             (filter (\<lambda>t. tkind t = Word) (regexTokens asciiLNM s 0)))"

lemma comma_tokens_segmenter:
  "tokenize nfcAscii asciiLNM commaSegmenter (ascii ''a, b'') =
     [\<lparr>tkind = Word, tvalue = ascii ''a'', tstart = 0, tend = 1\<rparr>,
      \<lparr>tkind = Sep, tvalue = ascii '','', tstart = 1, tend = 2\<rparr>,
      \<lparr>tkind = Sep, tvalue = ascii '' '', tstart = 2, tend = 3\<rparr>,
      \<lparr>tkind = Word, tvalue = ascii ''b'', tstart = 3, tend = 4\<rparr>]"
  by code_simp

lemma comma_tokens_regex:
  "tokenize nfcAscii asciiLNM noSegmenter (ascii ''a, b'') =
     [\<lparr>tkind = Word, tvalue = ascii ''a'', tstart = 0, tend = 1\<rparr>,
      \<lparr>tkind = Sep, tvalue = ascii '', '', tstart = 1, tend = 3\<rparr>,
      \<lparr>tkind = Word, tvalue = ascii ''b'', tstart = 3, tend = 4\<rparr>]"
  by code_simp

lemma words_only_segments:
  "wordsOnlySegmenter (normalize nfcAscii (ascii ''a, b!'')) =
     Some [\<lparr>segment = ascii ''a'', index = 0, isWordLike = None\<rparr>,
           \<lparr>segment = ascii ''b'', index = 3, isWordLike = None\<rparr>]"
  by code_simp

lemma words_only_tokens:
  "tokenize nfcAscii asciiLNM wordsOnlySegmenter (ascii ''a, b!'') =
     [\<lparr>tkind = Word, tvalue = ascii ''a'', tstart = 0, tend = 1\<rparr>,
      \<lparr>tkind = Sep, tvalue = ascii '', '', tstart = 1, tend = 3\<rparr>,
      \<lparr>tkind = Word, tvalue = ascii ''b'', tstart = 3, tend = 4\<rparr>,
      \<lparr>tkind = Sep, tvalue = ascii ''!'', tstart = 4, tend = 5\<rparr>]"
  by code_simp

lemma words_only_segmenterOk:
  "segmenterOk wordsOnlySegmenter (normalize nfcAscii (ascii ''a, b!''))"
  by code_simp

lemma comma_segmenterOk: "segmenterOk commaSegmenter (normalize nfcAscii (ascii ''a, b''))"
  by code_simp

text \<open>
  Claim C2, as stated, fails on the locale-aware path: each segment becomes a token, so
  the comma and the space of \<^verbatim>\<open>"a, b"\<close> are two neighbouring separator tokens and neither
  is a maximal run of separators.
\<close>

theorem segmenter_tokens_not_maximal_runs:
  "segmenterOk commaSegmenter (normalize nfcAscii (ascii ''a, b'')) \<and>
   \<not> maximalRuns asciiLNM (normalize nfcAscii (ascii ''a, b''))
       (tokenize nfcAscii asciiLNM commaSegmenter (ascii ''a, b''))"
  unfolding comma_tokens_segmenter
  by (simp add: comma_segmenterOk maximalRuns_def)

text \<open>
  Claim C2, amended. For every input, with a segmenter that is absent or returns in-order
  substrings of the string, the tokens tile the normalized string: there is no token
  exactly when the string is empty, the first token starts at 0, the last ends at the
  length, each token ends where the next one starts, and each token is non-empty and
  carries the substring between its offsets. On the fallback path each token is moreover
  a maximal run of one class. On the locale-aware path the tokens that start at the index
  of a segment are the segments themselves, one token for each and in their order, with
  the segment's text and offsets and with the kind that \<^verbatim>\<open>isWordLike\<close> gives (or, where it
  is undefined, the test for a letter, number or mark); every other token is a separator
  that ends where the next segment starts or where the string ends.
\<close>

theorem tokens_tile_normalized_string:
  assumes ok: "segmenterOk segmenter (normalize nfc text)"
  shows "let s = normalize nfc text; ts = tokenize nfc isLNM segmenter text
         in (ts = [] \<longleftrightarrow> s = []) \<and>
            (ts \<noteq> [] \<longrightarrow> tstart (hd ts) = 0 \<and> tend (last ts) = length s) \<and>
            (\<forall>i. i + 1 < length ts \<longrightarrow> tend (ts ! i) = tstart (ts ! (i + 1))) \<and>
            (\<forall>t \<in> set ts. tstart t < tend t \<and> tend t \<le> length s \<and>
               tvalue t = slice s (tstart t) (tend t)) \<and>
            (segmenter s = None \<longrightarrow> maximalRuns isLNM s ts) \<and>
            (\<forall>segments. segmenter s = Some segments \<longrightarrow>
               filter (\<lambda>t. tstart t \<in> set (map index segments)) ts
                 = map (segmentToken isLNM) segments \<and>
               (\<forall>t \<in> set ts. tstart t \<notin> set (map index segments) \<longrightarrow>
                  tkind t = Sep \<and>
                  (tend t \<in> set (map index segments) \<or> tend t = length s)))"
proof -
  define s where "s = normalize nfc text"
  define ts where "ts = tokenize nfc isLNM segmenter text"
  have t: "tiles s 0 ts"
    unfolding s_def ts_def by (rule tokenize_tiles [OF ok])
  have a: "ts = [] \<longleftrightarrow> s = []"
    using tiles_Nil_iff [OF t] by auto
  have b: "tstart (hd ts) = 0 \<and> tend (last ts) = length s" if "ts \<noteq> []"
    using tiles_hd [OF t that] tiles_last [OF t that] by simp
  have c: "tend (ts ! i) = tstart (ts ! (i + 1))" if "i + 1 < length ts" for i
    by (rule tiles_adjacent [OF t that])
  have d: "tstart u < tend u \<and> tend u \<le> length s \<and> tvalue u = slice s (tstart u) (tend u)"
    if "u \<in> set ts" for u
    using tiles_token [OF t that] by simp
  have e: "maximalRuns isLNM s ts" if "segmenter s = None"
  proof -
    from that have "ts = regexTokens isLNM s 0"
      unfolding ts_def s_def tokenize_def Let_def by simp
    with regexTokens_maximal [of 0 s isLNM] show ?thesis
      unfolding maximalRuns_def by simp
  qed
  have seg: "ts = segmentTokens isLNM s gs 0 \<and> segmentsOk s 0 gs" if "segmenter s = Some gs" for gs
    using that ok unfolding ts_def s_def tokenize_def Let_def segmenterOk_def by simp
  have f: "filter (\<lambda>t. tstart t \<in> set (map index gs)) ts = map (segmentToken isLNM) gs"
    if "segmenter s = Some gs" for gs
    using seg [OF that] segmentTokens_segments [of s 0 gs isLNM] by simp
  have g: "tkind u = Sep \<and> (tend u \<in> set (map index gs) \<or> tend u = length s)"
    if "segmenter s = Some gs" "u \<in> set ts" "tstart u \<notin> set (map index gs)" for gs u
    using seg [OF that(1)] segmentTokens_gaps [of s 0 gs u isLNM] that(2,3) by simp
  show ?thesis
    unfolding Let_def s_def [symmetric] ts_def [symmetric]
  proof (intro conjI impI allI ballI)
    show "ts = [] \<longleftrightarrow> s = []" by (rule a)
  next
    assume "ts \<noteq> []"
    from b [OF this] show "tstart (hd ts) = 0" "tend (last ts) = length s" by simp_all
  next
    fix i assume "i + 1 < length ts"
    then show "tend (ts ! i) = tstart (ts ! (i + 1))" by (rule c)
  next
    fix u assume "u \<in> set ts"
    from d [OF this] show "tstart u < tend u" "tend u \<le> length s"
      "tvalue u = slice s (tstart u) (tend u)" by simp_all
  next
    assume "segmenter s = None"
    then show "maximalRuns isLNM s ts" by (rule e)
  next
    fix gs assume "segmenter s = Some gs"
    then show "filter (\<lambda>t. tstart t \<in> set (map index gs)) ts = map (segmentToken isLNM) gs"
      by (rule f)
  next
    fix gs u assume "segmenter s = Some gs" "u \<in> set ts" "tstart u \<notin> set (map index gs)"
    from g [OF this] show "tkind u = Sep" by simp
  next
    fix gs u assume "segmenter s = Some gs" "u \<in> set ts" "tstart u \<notin> set (map index gs)"
    from g [OF this] show "tend u \<in> set (map index gs) \<or> tend u = length s" by simp
  qed
qed

theorem tokens_tile_witness:
  "tend (last (tokenize nfcAscii asciiLNM noSegmenter (ascii ''a, b'')))
     = length (normalize nfcAscii (ascii ''a, b'')) \<and>
   maximalRuns asciiLNM (normalize nfcAscii (ascii ''a, b''))
     (tokenize nfcAscii asciiLNM noSegmenter (ascii ''a, b'')) \<and>
   tend (tokenize nfcAscii asciiLNM commaSegmenter (ascii ''a, b'') ! 1)
     = tstart (tokenize nfcAscii asciiLNM commaSegmenter (ascii ''a, b'') ! (1 + 1)) \<and>
   filter (\<lambda>t. tstart t \<in> {0, 3}) (tokenize nfcAscii asciiLNM wordsOnlySegmenter (ascii ''a, b!''))
     = [\<lparr>tkind = Word, tvalue = ascii ''a'', tstart = 0, tend = 1\<rparr>,
        \<lparr>tkind = Word, tvalue = ascii ''b'', tstart = 3, tend = 4\<rparr>]"
proof -
  have ok: "segmenterOk noSegmenter (normalize nfcAscii (ascii ''a, b''))"
    by (simp add: segmenterOk_def noSegmenter_def)
  note f = tokens_tile_normalized_string [OF ok, of asciiLNM, unfolded Let_def]
  note g = tokens_tile_normalized_string [OF comma_segmenterOk, of asciiLNM, unfolded Let_def]
  note h = tokens_tile_normalized_string [OF words_only_segmenterOk, of asciiLNM, unfolded Let_def]
  have ne: "tokenize nfcAscii asciiLNM noSegmenter (ascii ''a, b'') \<noteq> []"
    by (simp add: comma_tokens_regex)
  have none: "noSegmenter (normalize nfcAscii (ascii ''a, b'')) = None"
    by (simp add: noSegmenter_def)
  have len: "1 + 1 < length (tokenize nfcAscii asciiLNM commaSegmenter (ascii ''a, b''))"
    by (simp add: comma_tokens_segmenter)
  from f have f2: "tokenize nfcAscii asciiLNM noSegmenter (ascii ''a, b'') \<noteq> [] \<longrightarrow>
      tstart (hd (tokenize nfcAscii asciiLNM noSegmenter (ascii ''a, b''))) = 0 \<and>
      tend (last (tokenize nfcAscii asciiLNM noSegmenter (ascii ''a, b'')))
        = length (normalize nfcAscii (ascii ''a, b''))"
    by (elim conjE)
  from f have f5: "noSegmenter (normalize nfcAscii (ascii ''a, b'')) = None \<longrightarrow>
      maximalRuns asciiLNM (normalize nfcAscii (ascii ''a, b''))
        (tokenize nfcAscii asciiLNM noSegmenter (ascii ''a, b''))"
    by (elim conjE)
  from g have g3: "\<forall>i. i + 1 < length (tokenize nfcAscii asciiLNM commaSegmenter (ascii ''a, b''))
      \<longrightarrow> tend (tokenize nfcAscii asciiLNM commaSegmenter (ascii ''a, b'') ! i)
        = tstart (tokenize nfcAscii asciiLNM commaSegmenter (ascii ''a, b'') ! (i + 1))"
    by (elim conjE)
  from h have h6: "\<forall>segments.
      wordsOnlySegmenter (normalize nfcAscii (ascii ''a, b!'')) = Some segments \<longrightarrow>
      filter (\<lambda>t. tstart t \<in> set (map index segments))
         (tokenize nfcAscii asciiLNM wordsOnlySegmenter (ascii ''a, b!''))
        = map (segmentToken asciiLNM) segments \<and>
      (\<forall>t \<in> set (tokenize nfcAscii asciiLNM wordsOnlySegmenter (ascii ''a, b!'')).
          tstart t \<notin> set (map index segments) \<longrightarrow>
          tkind t = Sep \<and>
          (tend t \<in> set (map index segments) \<or>
           tend t = length (normalize nfcAscii (ascii ''a, b!''))))"
    by (elim conjE)
  from h6 [rule_format, OF words_only_segments, THEN conjunct1]
  have h': "filter (\<lambda>t. tstart t \<in> {0, 3})
       (tokenize nfcAscii asciiLNM wordsOnlySegmenter (ascii ''a, b!''))
     = [\<lparr>tkind = Word, tvalue = ascii ''a'', tstart = 0, tend = 1\<rparr>,
        \<lparr>tkind = Word, tvalue = ascii ''b'', tstart = 3, tend = 4\<rparr>]"
    by (simp add: segmentToken_def testLNM_def asciiLNM_def ascii_def insert_commute)
  from f2 [rule_format, OF ne] f5 [rule_format, OF none] g3 [rule_format, OF len] h'
  show ?thesis by (intro conjI) (elim conjE, assumption)+
qed

section \<open>Offsets and texts of the change ranges\<close>

lemma tiles_concat: "tiles s off ts \<Longrightarrow> concat (map tvalue ts) = drop off s"
proof (induction ts arbitrary: off)
  case Nil
  then show ?case by simp
next
  case (Cons t ts)
  from Cons.prems have t: "tstart t = off" "off < tend t" "tend t \<le> length s"
    "tvalue t = slice s (tstart t) (tend t)" "tiles s (tend t) ts" by simp_all
  have "drop off s = take (tend t - off) (drop off s) @ drop (tend t - off) (drop off s)"
    by (simp only: append_take_drop_id)
  also have "drop (tend t - off) (drop off s) = drop (tend t) s"
    using t(2) by simp
  finally have "drop off s = tvalue t @ drop (tend t) s"
    using t by (simp add: slice_def)
  with Cons.IH [OF t(5)] show ?case by simp
qed

lemma tiles_offsets:
  "tiles s off ts \<Longrightarrow> k < length ts \<Longrightarrow>
   tstart (ts ! k) = off + length (concat (map tvalue (take k ts))) \<and>
   tend (ts ! k) = off + length (concat (map tvalue (take (Suc k) ts)))"
proof (induction ts arbitrary: off k)
  case Nil
  then show ?case by simp
next
  case (Cons t ts)
  from Cons.prems have t: "tstart t = off" "off < tend t" "tend t \<le> length s"
    "tvalue t = slice s (tstart t) (tend t)" "tiles s (tend t) ts" by simp_all
  have len: "length (tvalue t) = tend t - off"
    using t by (simp add: slice_length)
  show ?case
  proof (cases k)
    case 0
    with t len show ?thesis by simp
  next
    case (Suc k')
    with Cons.prems have "k' < length ts" by simp
    from Cons.IH [OF t(5) this] Suc t(2) len show ?thesis by simp
  qed
qed

lemma boundary_Suc:
  assumes t: "tiles s 0 ts" and k: "k < length ts"
  shows "length (concat (map tvalue (take k ts))) < length (concat (map tvalue (take (Suc k) ts)))"
proof -
  from k have "ts ! k \<in> set ts" by simp
  from tiles_token [OF t this] tiles_offsets [OF t k] show ?thesis by simp
qed

lemma boundary_mono:
  assumes t: "tiles s 0 ts"
  shows "k < k' \<Longrightarrow> k' \<le> length ts \<Longrightarrow>
    length (concat (map tvalue (take k ts))) < length (concat (map tvalue (take k' ts)))"
proof (induction k')
  case 0
  then show ?case by simp
next
  case (Suc n)
  then have n: "n < length ts" by simp
  show ?case
  proof (cases "k = n")
    case True
    with boundary_Suc [OF t n] show ?thesis by simp
  next
    case False
    with Suc.prems have "k < n" by simp
    from Suc.IH [OF this] n boundary_Suc [OF t n] show ?thesis by simp
  qed
qed

lemma drop_slices:
  "go \<le> a \<Longrightarrow> a \<le> e \<Longrightarrow> drop go xs = slice xs go a @ slice xs a e @ drop e xs"
proof -
  assume g: "go \<le> a" and a: "a \<le> e"
  have "drop go xs = take (a - go) (drop go xs) @ drop (a - go) (drop go xs)"
    by (simp only: append_take_drop_id)
  also have "drop (a - go) (drop go xs) = drop a xs" using g by simp
  also have "drop a xs = take (e - a) (drop a xs) @ drop (e - a) (drop a xs)"
    by (simp only: append_take_drop_id)
  also have "drop (e - a) (drop a xs) = drop e xs" using a by simp
  finally show ?thesis by (simp add: slice_def)
qed

lemma take_slice: "a \<le> e \<Longrightarrow> take e xs = take a xs @ slice xs a e"
  by (metis add_diff_cancel_left' le_Suc_ex slice_def take_add)

lemma range_text:
  assumes t: "tiles s 0 ts" and a: "a < e" and e: "e \<le> length ts"
  shows "slice s (tstart (ts ! a)) (tend (ts ! (e - 1))) = concat (map tvalue (slice ts a e))"
proof -
  have s: "s = concat (map tvalue ts)" using tiles_concat [OF t] by simp
  have st: "tstart (ts ! a) = length (concat (map tvalue (take a ts)))"
    using tiles_offsets [OF t, of a] a e by simp
  have en: "tend (ts ! (e - 1)) = length (concat (map tvalue (take e ts)))"
    using tiles_offsets [OF t, of "e - 1"] a e by simp
  have te: "take e ts = take a ts @ slice ts a e"
    using a by (intro take_slice) simp
  have "ts = take a ts @ slice ts a e @ drop e ts"
    using drop_slices [of 0 a e ts] a by (simp add: slice_def)
  then have "s = concat (map tvalue (take a ts)) @ concat (map tvalue (slice ts a e))
      @ concat (map tvalue (drop e ts))"
    unfolding s by (metis concat_append map_append)
  then show ?thesis
    unfolding st en te by (simp add: slice_def)
qed

text \<open>On tokens that tile the two strings the body of the last loop compares the texts of
  the two token spans, and places the diff at the boundary of the first old token.\<close>

lemma buildDiff_tiled:
  assumes t: "tiles s 0 a" and u: "tiles s' 0 b"
    and o: "oldTokStart ch \<le> oldTokEnd ch" "oldTokEnd ch \<le> length a"
    and n: "newTokStart ch \<le> newTokEnd ch" "newTokEnd ch \<le> length b"
  shows "buildDiff s s' a b ch =
     (if concat (map tvalue (slice a (oldTokStart ch) (oldTokEnd ch)))
           = concat (map tvalue (slice b (newTokStart ch) (newTokEnd ch)))
      then None
      else Some \<lparr>oldText = concat (map tvalue (slice a (oldTokStart ch) (oldTokEnd ch))),
                 position = \<lparr>startIndex = length (concat (map tvalue (take (oldTokStart ch) a))),
                             endIndex = length (concat (map tvalue (take (oldTokEnd ch) a)))\<rparr>,
                 newText = concat (map tvalue (slice b (newTokStart ch) (newTokEnd ch))),
                 changeType = classifyChange
                   (slice a (oldTokStart ch) (oldTokEnd ch))
                   (slice b (newTokStart ch) (newTokEnd ch))
                   (concat (map tvalue (slice a (oldTokStart ch) (oldTokEnd ch))))
                   (concat (map tvalue (slice b (newTokStart ch) (newTokEnd ch))))\<rparr>)"
proof -
  define os oe ns ne where "os = oldTokStart ch" and "oe = oldTokEnd ch"
    and "ns = newTokStart ch" and "ne = newTokEnd ch"
  note d = os_def [symmetric] oe_def [symmetric] ns_def [symmetric] ne_def [symmetric]
  define oldStart where "oldStart = (if oe > os then tstart (a ! os)
     else if os \<ge> 1 then tend (a ! (os - 1)) else 0)"
  define oldEnd where "oldEnd = (if oe > os then tend (a ! (oe - 1)) else oldStart)"
  have st: "oldStart = length (concat (map tvalue (take os a)))"
  proof (cases "oe > os")
    case True
    with tiles_offsets [OF t, of os] o show ?thesis by (simp add: oldStart_def d)
  next
    case False
    show ?thesis
    proof (cases "os \<ge> 1")
      case True
      with tiles_offsets [OF t, of "os - 1"] o False show ?thesis
        by (simp add: oldStart_def d)
    next
      case z: False
      then have "os = 0" by simp
      with False show ?thesis by (simp add: oldStart_def)
    qed
  qed
  have en: "oldEnd = length (concat (map tvalue (take oe a)))"
  proof (cases "oe > os")
    case True
    with tiles_offsets [OF t, of "oe - 1"] o show ?thesis by (simp add: oldEnd_def d)
  next
    case False
    with o have "oe = os" by (simp add: d)
    with False st show ?thesis by (simp add: oldEnd_def)
  qed
  have osl: "sliceFromOriginal s oldStart oldEnd = concat (map tvalue (slice a os oe))"
  proof (cases "oe > os")
    case True
    with range_text [OF t, of os oe] o show ?thesis
      by (simp add: sliceFromOriginal_def oldStart_def oldEnd_def d)
  next
    case False
    then show ?thesis
      by (simp add: sliceFromOriginal_def oldEnd_def slice_def)
  qed
  have nsl: "(if ne > ns then sliceFromOriginal s' (tstart (b ! ns)) (tend (b ! (ne - 1))) else [])
      = concat (map tvalue (slice b ns ne))"
  proof (cases "ne > ns")
    case True
    with range_text [OF u, of ns ne] n show ?thesis
      by (simp add: sliceFromOriginal_def d)
  next
    case False
    then show ?thesis by (simp add: slice_def)
  qed
  show ?thesis
    unfolding buildDiff_def d Let_def
    unfolding oldStart_def [symmetric]
    unfolding oldEnd_def [symmetric] osl nsl st [symmetric] en [symmetric]
    by simp
qed

lemma chain_texts:
  "chain a b go gn rs \<Longrightarrow>
   (\<And>r. r \<in> set rs \<Longrightarrow>
      concat (map tvalue (slice a (oldTokStart r) (oldTokEnd r)))
        = concat (map tvalue (slice b (newTokStart r) (newTokEnd r)))) \<Longrightarrow>
   concat (map tvalue (drop go a)) = concat (map tvalue (drop gn b))"
proof (induction rs arbitrary: go gn)
  case Nil
  then show ?case by simp
next
  case (Cons r rs)
  from Cons.prems(1) have c: "go \<le> oldTokStart r" "gn \<le> newTokStart r"
    "map tvalue (slice a go (oldTokStart r)) = map tvalue (slice b gn (newTokStart r))"
    "oldTokStart r \<le> oldTokEnd r" "newTokStart r \<le> newTokEnd r"
    "chain a b (oldTokEnd r) (newTokEnd r) rs" by simp_all
  have rest: "concat (map tvalue (drop (oldTokEnd r) a)) = concat (map tvalue (drop (newTokEnd r) b))"
    by (rule Cons.IH [OF c(6)]) (simp add: Cons.prems(2))
  have mid: "concat (map tvalue (slice a (oldTokStart r) (oldTokEnd r)))
        = concat (map tvalue (slice b (newTokStart r) (newTokEnd r)))"
    by (rule Cons.prems(2)) simp
  have "concat (map tvalue (drop go a)) =
      concat (map tvalue (slice a go (oldTokStart r)))
      @ concat (map tvalue (slice a (oldTokStart r) (oldTokEnd r)))
      @ concat (map tvalue (drop (oldTokEnd r) a))"
    by (subst drop_slices [OF c(1) c(4)]) simp
  also have "\<dots> = concat (map tvalue (slice b gn (newTokStart r)))
      @ concat (map tvalue (slice b (newTokStart r) (newTokEnd r)))
      @ concat (map tvalue (drop (newTokEnd r) b))"
    by (simp only: c(3) mid rest)
  also have "\<dots> = concat (map tvalue (drop gn b))"
  proof -
    have "concat (map tvalue (drop gn b)) =
        concat (map tvalue (slice b gn (newTokStart r)))
        @ concat (map tvalue (slice b (newTokStart r) (newTokEnd r)))
        @ concat (map tvalue (drop (newTokEnd r) b))"
      by (subst drop_slices [OF c(2) c(5)]) simp
    then show ?thesis by simp
  qed
  finally show ?case .
qed

section \<open>Properties of the returned list\<close>

lemma diffLoop_Nil:
  "diffLoop ot nt a b rs = [] \<Longrightarrow> r \<in> set rs \<Longrightarrow> buildDiff ot nt a b r = None"
  by (induction rs) (auto split: option.splits)

lemma rangesFrom_lower:
  "rangesFrom lold lnew rs \<Longrightarrow> r \<in> set rs \<Longrightarrow> lold \<le> oldTokStart r"
proof (induction rs arbitrary: lold lnew)
  case Nil
  then show ?case by simp
next
  case (Cons x rs)
  show ?case
  proof (cases "r = x")
    case True
    with Cons.prems show ?thesis by simp
  next
    case False
    with Cons.prems have "rangesFrom (oldTokEnd x + 1) (newTokEnd x + 1) rs" "r \<in> set rs"
      by simp_all
    from Cons.IH [OF this] Cons.prems(1) show ?thesis by simp
  qed
qed

lemma diffLoop_sorted:
  assumes t: "tiles s 0 a" and u: "tiles s' 0 b"
  shows "rangesFrom lold lnew rs \<Longrightarrow>
    (\<And>r. r \<in> set rs \<Longrightarrow> oldTokEnd r \<le> length a \<and> newTokEnd r \<le> length b) \<Longrightarrow>
    sorted_wrt (\<lambda>d e. startIndex (position d) < startIndex (position e))
      (diffLoop s s' a b rs)"
proof (induction rs arbitrary: lold lnew)
  case Nil
  then show ?case by simp
next
  case (Cons r rs)
  from Cons.prems(1) have r: "oldTokStart r \<le> oldTokEnd r" "newTokStart r \<le> newTokEnd r"
    and rest: "rangesFrom (oldTokEnd r + 1) (newTokEnd r + 1) rs" by simp_all
  have rb: "oldTokEnd r \<le> length a" "newTokEnd r \<le> length b"
    using Cons.prems(2) [of r] by simp_all
  have IH: "sorted_wrt (\<lambda>d e. startIndex (position d) < startIndex (position e))
      (diffLoop s s' a b rs)"
    by (rule Cons.IH [OF rest]) (simp add: Cons.prems(2))
  show ?case
  proof (cases "buildDiff s s' a b r")
    case None
    with IH show ?thesis by simp
  next
    case (Some d)
    have sd: "startIndex (position d) = length (concat (map tvalue (take (oldTokStart r) a)))"
      using Some unfolding buildDiff_tiled [OF t u r(1) rb(1) r(2) rb(2)]
      by (auto split: if_splits)
    have "startIndex (position d) < startIndex (position e)"
      if e: "e \<in> set (diffLoop s s' a b rs)" for e
    proof -
      from diffLoop_set [OF e] obtain r' where
        r': "r' \<in> set rs" and be: "buildDiff s s' a b r' = Some e" by blast
      from rangesFrom_lower [OF rest r'] have lt: "oldTokEnd r < oldTokStart r'" by simp
      from Cons.prems(1) r' have wf: "oldTokStart r' \<le> oldTokEnd r'" "newTokStart r' \<le> newTokEnd r'"
        using rest
      proof -
        have "\<And>lold lnew. rangesFrom lold lnew rs \<Longrightarrow> r' \<in> set rs \<Longrightarrow>
            oldTokStart r' \<le> oldTokEnd r' \<and> newTokStart r' \<le> newTokEnd r'"
        proof (induction rs)
          case Nil
          then show ?case by simp
        next
          case (Cons x xs)
          then show ?case by (cases "r' = x") auto
        qed
        from this [OF rest r'] show "oldTokStart r' \<le> oldTokEnd r'" "newTokStart r' \<le> newTokEnd r'"
          by simp_all
      qed
      have rb': "oldTokEnd r' \<le> length a" "newTokEnd r' \<le> length b"
        using Cons.prems(2) [of r'] r' by simp_all
      have se: "startIndex (position e) = length (concat (map tvalue (take (oldTokStart r') a)))"
        using be unfolding buildDiff_tiled [OF t u wf(1) rb'(1) wf(2) rb'(2)]
        by (auto split: if_splits)
      have "oldTokStart r < oldTokStart r'" using r lt by simp
      moreover have "oldTokStart r' \<le> length a" using wf rb' by simp
      ultimately show ?thesis
        unfolding sd se by (rule boundary_mono [OF t])
    qed
    with IH Some show ?thesis by simp
  qed
qed

lemma tokenize_tiles_normalized:
  assumes "nfc (nfc x) = nfc x" "segmenterOk segmenter (nfc x)"
  shows "tiles (nfc x) 0 (tokenize nfc isLNM segmenter (nfc x))"
  using tokenize_tiles [of segmenter nfc "nfc x" isLNM] assms by (simp add: normalize_def)

text \<open>
  Claim C1. \<^verbatim>\<open>getTextDiffs(x, y)\<close> is the empty list if and only if the normal forms of
  \<open>x\<close> and \<open>y\<close> are equal, and \<^verbatim>\<open>getTextDiffs(x, x)\<close> is empty for every \<open>x\<close>. The engine
  enters through what it guarantees: normalisation is idempotent, and the segmenter, when
  there is one, returns in-order substrings of the string it is given.
\<close>

theorem getTextDiffs_empty_iff_equal_normal_forms:
  assumes idem: "\<forall>s. nfc (nfc s) = nfc s"
    and okx: "segmenterOk segmenter (nfc x)" and oky: "segmenterOk segmenter (nfc y)"
  shows "(getTextDiffs nfc isLNM segmenter x y = [] \<longleftrightarrow> nfc x = nfc y) \<and>
         getTextDiffs nfc isLNM segmenter x x = []"
proof
  show "getTextDiffs nfc isLNM segmenter x x = []"
    by (simp add: getTextDiffs_def)
  show "getTextDiffs nfc isLNM segmenter x y = [] \<longleftrightarrow> nfc x = nfc y"
  proof
    assume "nfc x = nfc y"
    then show "getTextDiffs nfc isLNM segmenter x y = []"
      by (simp add: getTextDiffs_def normalize_def)
  next
    assume e: "getTextDiffs nfc isLNM segmenter x y = []"
    show "nfc x = nfc y"
    proof (rule ccontr)
      assume ne: "nfc x \<noteq> nfc y"
      define a where "a = tokenize nfc isLNM segmenter (nfc x)"
      define b where "b = tokenize nfc isLNM segmenter (nfc y)"
      have t: "tiles (nfc x) 0 a"
        unfolding a_def using idem okx by (intro tokenize_tiles_normalized) simp_all
      have u: "tiles (nfc y) 0 b"
        unfolding b_def using idem oky by (intro tokenize_tiles_normalized) simp_all
      from e ne have d: "diffLoop (nfc x) (nfc y) a b (mergedChangesOf a b) = []"
        unfolding getTextDiffs_def Let_def normalize_def a_def b_def by simp
      have ch: "chain a b 0 0 (mergedChangesOf a b)" by (rule mergedChangesOf_chain)
      have "concat (map tvalue (slice a (oldTokStart r) (oldTokEnd r)))
          = concat (map tvalue (slice b (newTokStart r) (newTokEnd r)))"
        if r: "r \<in> set (mergedChangesOf a b)" for r
      proof -
        from chain_bounds [OF ch r] have bd: "oldTokStart r \<le> oldTokEnd r"
          "oldTokEnd r \<le> length a" "newTokStart r \<le> newTokEnd r" "newTokEnd r \<le> length b"
          by simp_all
        from diffLoop_Nil [OF d r] show ?thesis
          unfolding buildDiff_tiled [OF t u bd] by (simp split: if_splits)
      qed
      from chain_texts [OF ch this]
      have "concat (map tvalue a) = concat (map tvalue b)" by simp
      with tiles_concat [OF t] tiles_concat [OF u] have "nfc x = nfc y" by simp
      with ne show False by contradiction
    qed
  qed
qed

theorem getTextDiffs_empty_witness:
  "(getTextDiffs nfcAscii asciiLNM noSegmenter (ascii ''cat'') (ascii ''dog'') = []
      \<longleftrightarrow> nfcAscii (ascii ''cat'') = nfcAscii (ascii ''dog'')) \<and>
   getTextDiffs nfcAscii asciiLNM commaSegmenter (ascii ''a, b'') (ascii ''a, b'') = []"
proof -
  have i: "\<forall>s. nfcAscii (nfcAscii s) = nfcAscii s" by (simp add: nfcAscii_def)
  have o: "segmenterOk noSegmenter s" for s by (simp add: segmenterOk_def noSegmenter_def)
  have c: "segmenterOk commaSegmenter (nfcAscii (ascii ''a, b''))"
    using comma_segmenterOk by (simp add: normalize_def)
  from getTextDiffs_empty_iff_equal_normal_forms
      [where nfc = nfcAscii and segmenter = noSegmenter and isLNM = asciiLNM
         and x = "ascii ''cat''" and y = "ascii ''dog''", OF i o o]
    getTextDiffs_empty_iff_equal_normal_forms
      [where nfc = nfcAscii and segmenter = commaSegmenter and isLNM = asciiLNM
         and x = "ascii ''a, b''" and y = "ascii ''a, b''", OF i c c]
  show ?thesis by (elim conjE) (intro conjI, assumption+)
qed

text \<open>
  Claim C6. The returned list is ordered by strictly increasing \<^verbatim>\<open>position.startIndex\<close>,
  under the same two guarantees of the engine.
\<close>

theorem startIndex_strictly_increasing:
  assumes idem: "\<forall>s. nfc (nfc s) = nfc s"
    and okx: "segmenterOk segmenter (nfc x)" and oky: "segmenterOk segmenter (nfc y)"
  shows "sorted_wrt (\<lambda>d e. startIndex (position d) < startIndex (position e))
           (getTextDiffs nfc isLNM segmenter x y)"
proof (cases "nfc x = nfc y")
  case True
  then show ?thesis by (simp add: getTextDiffs_def normalize_def)
next
  case False
  define a where "a = tokenize nfc isLNM segmenter (nfc x)"
  define b where "b = tokenize nfc isLNM segmenter (nfc y)"
  have t: "tiles (nfc x) 0 a"
    unfolding a_def using idem okx by (intro tokenize_tiles_normalized) simp_all
  have u: "tiles (nfc y) 0 b"
    unfolding b_def using idem oky by (intro tokenize_tiles_normalized) simp_all
  have "sorted_wrt (\<lambda>d e. startIndex (position d) < startIndex (position e))
      (diffLoop (nfc x) (nfc y) a b (mergedChangesOf a b))"
  proof (rule diffLoop_sorted [OF t u mergedChangesOf_rangesFrom])
    fix r assume "r \<in> set (mergedChangesOf a b)"
    from chain_bounds [OF mergedChangesOf_chain this]
    show "oldTokEnd r \<le> length a \<and> newTokEnd r \<le> length b" by simp
  qed
  with False show ?thesis
    unfolding getTextDiffs_def Let_def normalize_def a_def b_def by simp
qed

lemma a_b_b_a:
  "getTextDiffs nfcAscii asciiLNM noSegmenter (ascii ''a b'') (ascii ''b a'') =
     [\<lparr>oldText = ascii ''a '', position = \<lparr>startIndex = 0, endIndex = 2\<rparr>,
       newText = [], changeType = Delete\<rparr>,
      \<lparr>oldText = [], position = \<lparr>startIndex = 3, endIndex = 3\<rparr>,
       newText = ascii '' a'', changeType = Insert\<rparr>]"
  by code_simp

theorem startIndex_strictly_increasing_witness:
  "startIndex (position (getTextDiffs nfcAscii asciiLNM noSegmenter (ascii ''a b'') (ascii ''b a'') ! 0))
   < startIndex (position (getTextDiffs nfcAscii asciiLNM noSegmenter (ascii ''a b'') (ascii ''b a'') ! 1))"
proof -
  have i: "\<forall>s. nfcAscii (nfcAscii s) = nfcAscii s" by (simp add: nfcAscii_def)
  have o: "segmenterOk noSegmenter s" for s by (simp add: segmenterOk_def noSegmenter_def)
  have l: "0 < (1::nat)"
    "1 < length (getTextDiffs nfcAscii asciiLNM noSegmenter (ascii ''a b'') (ascii ''b a''))"
    by (simp_all add: a_b_b_a)
  from startIndex_strictly_increasing
      [where nfc = nfcAscii and segmenter = noSegmenter and isLNM = asciiLNM
         and x = "ascii ''a b''" and y = "ascii ''b a''", OF i o o]
  show ?thesis
    by (rule sorted_wrt_nth_less [OF _ l])
qed

section \<open>Normalizing twice and normalizing once\<close>

text \<open>The pipeline as the specification words it: each input is normalized a single time,
  and the tokenizer and every later stage work on the normalized string.\<close>

definition tokenizeNormalized ::
  "(nat \<Rightarrow> bool) \<Rightarrow> (ustring \<Rightarrow> Segment list option) \<Rightarrow> ustring \<Rightarrow> Token list" where
  "tokenizeNormalized isLNM segmenter normalized =
     (case segmenter normalized of
        Some segments \<Rightarrow> segmentTokens isLNM normalized segments 0
      | None \<Rightarrow> regexTokens isLNM normalized 0)"

definition getTextDiffsNormalizedOnce ::
  "(ustring \<Rightarrow> ustring) \<Rightarrow> (nat \<Rightarrow> bool) \<Rightarrow> (ustring \<Rightarrow> Segment list option)
     \<Rightarrow> ustring \<Rightarrow> ustring \<Rightarrow> TextDiff list" where
  "getTextDiffsNormalizedOnce nfc isLNM segmenter oldTextInput newTextInput =
     (let oldNormalized = nfc oldTextInput;
          newNormalized = nfc newTextInput
      in if oldNormalized = newNormalized then []
         else
           (let oldTokens = tokenizeNormalized isLNM segmenter oldNormalized;
                newTokens = tokenizeNormalized isLNM segmenter newNormalized
            in diffLoop oldNormalized newNormalized oldTokens newTokens
                 (mergedChangesOf oldTokens newTokens)))"

text \<open>\<^verbatim>\<open>tokenize\<close> normalizes its argument itself, so inside \<^verbatim>\<open>getTextDiffs\<close> the tokens are
  those of the normal form of the normal form.\<close>

lemma tokenize_normalizes_again:
  "tokenize nfc isLNM segmenter text = tokenizeNormalized isLNM segmenter (nfc text)"
  by (simp add: tokenize_def tokenizeNormalized_def normalize_def Let_def)

text \<open>A normalizer that leaves a mark at each application, which makes the number of
  applications visible in the result.\<close>

definition markingNormalizer :: "ustring \<Rightarrow> ustring" where
  "markingNormalizer s = s @ ascii ''c''"

text \<open>A normalizer that composes \<^verbatim>\<open>e\<close> followed by U+0301 into U+00E9, as NFC does, and
  leaves the rest of the string alone; and the letters and marks of such text.\<close>

fun composingNormalizer :: "ustring \<Rightarrow> ustring" where
  "composingNormalizer (a # b # r) =
     (if a = 0x65 \<and> b = 0x301 then 0xE9 # composingNormalizer r
      else a # composingNormalizer (b # r))"
| "composingNormalizer r = r"

definition latinLNM :: "nat \<Rightarrow> bool" where
  "latinLNM c = (asciiLNM c \<or> c = 0xE9 \<or> c = 0x301)"

lemma composingNormalizer_other:
  "c \<noteq> 0x65 \<Longrightarrow> composingNormalizer (c # xs) = c # composingNormalizer xs"
  by (cases xs) auto

lemma composingNormalizer_head:
  "b \<noteq> 0x301 \<Longrightarrow> \<exists>c ys. composingNormalizer (b # r) = c # ys \<and> c \<noteq> 0x301"
  by (cases r) auto

lemma composingNormalizer_idem:
  "composingNormalizer (composingNormalizer s) = composingNormalizer s"
proof (induction s rule: composingNormalizer.induct)
  case (1 a b r)
  show ?case
  proof (cases "a = 0x65 \<and> b = 0x301")
    case True
    with "1.IH"(1) show ?thesis by (simp add: composingNormalizer_other)
  next
    case False
    note IH = "1.IH"(2) [OF False]
    show ?thesis
    proof (cases "a = 0x65")
      case ne: False
      with False IH show ?thesis by (simp add: composingNormalizer_other)
    next
      case True
      with False have "b \<noteq> 0x301" by simp
      from composingNormalizer_head [OF this, of r]
      obtain c ys where c: "composingNormalizer (b # r) = c # ys" "c \<noteq> 0x301" by blast
      have n: "\<not> (a = 0x65 \<and> b = 0x301)" by (rule False)
      have "composingNormalizer (a # b # r) = a # c # ys"
        using n c(1) by simp
      moreover have "composingNormalizer (a # c # ys) = a # composingNormalizer (c # ys)"
        using c(2) by simp
      moreover have "composingNormalizer (c # ys) = c # ys"
        using IH c(1) by simp
      ultimately show ?thesis by simp
    qed
  qed
qed simp_all

lemma mark_once:
  "getTextDiffsNormalizedOnce markingNormalizer asciiLNM noSegmenter (ascii ''a'') (ascii ''b'') =
     [\<lparr>oldText = ascii ''ac'', position = \<lparr>startIndex = 0, endIndex = 2\<rparr>,
       newText = ascii ''bc'', changeType = SpellCorrection\<rparr>]"
  by code_simp

lemma mark_code:
  "getTextDiffs markingNormalizer asciiLNM noSegmenter (ascii ''a'') (ascii ''b'') =
     [\<lparr>oldText = ascii ''ac'', position = \<lparr>startIndex = 0, endIndex = 3\<rparr>,
       newText = ascii ''bc'', changeType = SpellCorrection\<rparr>]"
  by code_simp

text \<open>
  Claim C9, as stated, fails: \<^verbatim>\<open>getTextDiffs\<close> normalizes each input at lines 155-156 and
  \<^verbatim>\<open>tokenize\<close>, called on the result at lines 160-161, normalizes it again at line 35. With
  the marking normalizer the diff of \<^verbatim>\<open>"a"\<close> and \<^verbatim>\<open>"b"\<close> ends at offset 3, the length of the
  twice-marked string, where the pipeline that normalizes once ends it at 2.
\<close>

theorem getTextDiffs_normalizes_twice:
  "getTextDiffs markingNormalizer asciiLNM noSegmenter (ascii ''a'') (ascii ''b'') \<noteq>
   getTextDiffsNormalizedOnce markingNormalizer asciiLNM noSegmenter (ascii ''a'') (ascii ''b'')"
  unfolding mark_once mark_code by simp

lemma cafe_once:
  "getTextDiffsNormalizedOnce composingNormalizer latinLNM noSegmenter
     (ascii ''cafe'' @ [0x301]) (ascii ''cafe'') =
     [\<lparr>oldText = ascii ''caf'' @ [0xE9], position = \<lparr>startIndex = 0, endIndex = 4\<rparr>,
       newText = ascii ''cafe'', changeType = SpellCorrection\<rparr>]"
  by code_simp

text \<open>
  Claim C9, amended. \<^verbatim>\<open>getTextDiffs\<close> normalizes each input before the equality check that
  short-circuits identical inputs and before tokenization; when the normal forms differ,
  \<^verbatim>\<open>tokenize\<close> normalizes the normalized string a second time, so the tokens are those of
  the twice-normalized string while the equality check and the text slices use the
  once-normalized one. NFC being idempotent, the pipeline behaves identically to one in
  which each input is normalized a single time and every later stage operates on that
  already-normalized string.
\<close>

theorem normalized_twice_behaves_as_once:
  "getTextDiffs nfc isLNM segmenter oldTextInput newTextInput =
     (if nfc oldTextInput = nfc newTextInput then []
      else (let oldTokens = tokenizeNormalized isLNM segmenter (nfc (nfc oldTextInput));
                newTokens = tokenizeNormalized isLNM segmenter (nfc (nfc newTextInput))
            in diffLoop (nfc oldTextInput) (nfc newTextInput) oldTokens newTokens
                 (mergedChangesOf oldTokens newTokens))) \<and>
   ((\<forall>s. nfc (nfc s) = nfc s) \<longrightarrow>
      getTextDiffs nfc isLNM segmenter oldTextInput newTextInput =
      getTextDiffsNormalizedOnce nfc isLNM segmenter oldTextInput newTextInput)"
  unfolding getTextDiffs_def getTextDiffsNormalizedOnce_def normalize_def
    tokenize_normalizes_again Let_def
  by simp

theorem normalized_twice_behaves_as_once_witness:
  "getTextDiffs composingNormalizer latinLNM noSegmenter (ascii ''cafe'' @ [0x301]) (ascii ''cafe'') =
     getTextDiffsNormalizedOnce composingNormalizer latinLNM noSegmenter
       (ascii ''cafe'' @ [0x301]) (ascii ''cafe'') \<and>
   getTextDiffs composingNormalizer latinLNM noSegmenter (ascii ''cafe'' @ [0x301]) (ascii ''cafe'') =
     [\<lparr>oldText = ascii ''caf'' @ [0xE9], position = \<lparr>startIndex = 0, endIndex = 4\<rparr>,
       newText = ascii ''cafe'', changeType = SpellCorrection\<rparr>]"
proof -
  have i: "\<forall>s. composingNormalizer (composingNormalizer s) = composingNormalizer s"
    by (simp add: composingNormalizer_idem)
  from normalized_twice_behaves_as_once
      [where nfc = composingNormalizer and isLNM = latinLNM and segmenter = noSegmenter
         and oldTextInput = "ascii ''cafe'' @ [0x301]" and newTextInput = "ascii ''cafe''",
       THEN conjunct2, THEN mp, OF i]
  show ?thesis by (simp only: cafe_once simp_thms)
qed

section \<open>No checked access fails\<close>

lemma andThen_Inr [simp]: "andThen (Inr x) f = f x"
  by (simp add: andThen_def)

lemma andThen_Inl [simp]: "andThen (Inl e) f = Inl e"
  by (simp add: andThen_def)

lemma elementAt_ok [simp]: "i < length xs \<Longrightarrow> elementAt xs i = Inr (xs ! i)"
  by (simp add: elementAt_def)

lemma numberAt_ok [simp]: "j < length xs \<Longrightarrow> numberAt xs j = Inr (xs ! j)"
  by (simp add: numberAt_def)

lemma storeAt_ok [simp]: "j < length xs \<Longrightarrow> storeAt xs j v = Inr (xs[j := v])"
  by (simp add: storeAt_def)

lemma sliceChecked_ok [simp]:
  "a \<le> b \<Longrightarrow> b \<le> length xs \<Longrightarrow> sliceChecked xs a b = Inr (slice xs a b)"
  by (simp add: sliceChecked_def)

lemma testedAt_lenient [simp]: "testedAt False xs i = Inr (js_get xs i)"
  by (simp add: testedAt_def js_get_def)

lemma testedLast_lenient [simp]: "testedLast False xs = Inr (js_last xs)"
  by (simp add: testedLast_def js_last_def)

lemma foldChecked_refines:
  assumes step: "\<And>s x. I s \<Longrightarrow> x \<in> set xs \<Longrightarrow> fC s x = Inr (f s x) \<and> I (f s x)"
  shows "I s \<Longrightarrow> foldChecked fC s xs = Inr (foldl f s xs) \<and> I (foldl f s xs)"
  using step
proof (induction xs arbitrary: s)
  case Nil
  then show ?case by simp
next
  case (Cons x xs)
  from Cons.prems(2) [OF Cons.prems(1), of x]
  have s: "fC s x = Inr (f s x)" "I (f s x)" by simp_all
  have "foldChecked fC (f s x) xs = Inr (foldl f (f s x) xs) \<and> I (foldl f (f s x) xs)"
    by (rule Cons.IH [OF s(2)]) (simp add: Cons.prems(2))
  with s show ?case by simp
qed

text \<open>The shape of the table: \<open>n + 1\<close> rows of \<open>m + 1\<close> cells.\<close>

definition dpShape :: "Token list \<Rightarrow> Token list \<Rightarrow> nat list list \<Rightarrow> bool" where
  "dpShape a b dp =
     (length dp = length a + 1 \<and> (\<forall>r \<le> length a. length (dp ! r) = length b + 1))"

lemma dpShape_row: "dpShape a b dp \<Longrightarrow> r \<le> length a \<Longrightarrow> length (dp ! r) = length b + 1"
  unfolding dpShape_def by blast

lemma dpShape_rows: "dpShape a b dp \<Longrightarrow> length dp = length a + 1"
  unfolding dpShape_def by blast

lemma dpCellChecked_ok:
  assumes sh: "dpShape a b dp" and i: "i < length a" and j: "j < length b"
  shows "dpCellChecked a b dp i j = Inr (dpCell a b dp i j)"
proof -
  have r0: "length (dp ! i) = length b + 1" using dpShape_row [OF sh, of i] i by simp
  have r1: "length (dp ! (i + 1)) = length b + 1" using dpShape_row [OF sh, of "i + 1"] i by simp
  have n: "length dp = length a + 1" by (rule dpShape_rows [OF sh])
  show ?thesis
    unfolding dpCellChecked_def dpCell_def using i j r0 r1 n by simp
qed

lemma dpShape_update:
  assumes sh: "dpShape a b dp" and i: "i < length a" and j: "j < length b"
  shows "dpShape a b (dp[i := (dp ! i)[j := v]])"
  unfolding dpShape_def
proof (intro conjI allI impI)
  show "length (dp[i := (dp ! i)[j := v]]) = length a + 1"
    using dpShape_rows [OF sh] by simp
next
  fix r assume r: "r \<le> length a"
  show "length (dp[i := (dp ! i)[j := v]] ! r) = length b + 1"
    using dpShape_row [OF sh r] dpShape_row [OF sh, of i] dpShape_rows [OF sh] i
    by (cases "r = i") simp_all
qed

lemma dpRowChecked_ok:
  assumes sh: "dpShape a b dp" and i: "i < length a"
  shows "dpRowChecked a b dp i = Inr (dpRow a b dp i) \<and> dpShape a b (dpRow a b dp i)"
  unfolding dpRowChecked_def dpRow_def
proof (rule foldChecked_refines [where I = "dpShape a b", OF _ sh])
  fix s j
  assume s: "dpShape a b s" and "j \<in> set (rev [0..<length b])"
  then have j: "j < length b" by simp
  have r: "length (s ! i) = length b + 1" using dpShape_row [OF s, of i] i by simp
  have n: "length s = length a + 1" by (rule dpShape_rows [OF s])
  show "andThen (dpCellChecked a b s i j) (\<lambda>v.
          andThen (elementAt s i) (\<lambda>row.
          andThen (storeAt row j v) (\<lambda>row'. Inr (s[i := row']))))
        = Inr (s[i := (s ! i)[j := dpCell a b s i j]]) \<and>
        dpShape a b (s[i := (s ! i)[j := dpCell a b s i j]])"
    using dpCellChecked_ok [OF s i j] dpShape_update [OF s i j] i j r n by simp
qed

lemma dpShape_init: "dpShape a b (replicate (length a + 1) (replicate (length b + 1) 0))"
  unfolding dpShape_def by (simp del: replicate.simps)

lemma dpTableChecked_ok:
  "dpTableChecked a b = Inr (dpTable a b) \<and> dpShape a b (dpTable a b)"
  unfolding dpTableChecked_def dpTable_def
proof (rule foldChecked_refines [where I = "dpShape a b", OF _ dpShape_init])
  fix s i
  assume s: "dpShape a b s" and "i \<in> set (rev [0..<length a])"
  then have "i < length a" by simp
  from dpRowChecked_ok [OF s this]
  show "dpRowChecked a b s i = Inr (dpRow a b s i) \<and> dpShape a b (dpRow a b s i)" .
qed

lemma lcsWalkChecked_ok:
  "dpShape a b dp \<Longrightarrow> lcsWalkChecked a b dp i j = Inr (lcsWalk a b dp i j)"
proof (induction a b dp i j rule: lcsWalk.induct)
  case (1 a b dp i j)
  note sh = "1.prems"
  show ?case
  proof (cases "i < length a \<and> j < length b")
    case False
    then show ?thesis
      by (subst lcsWalkChecked.simps, subst lcsWalk.simps) auto
  next
    case True
    then have i: "i < length a" and j: "j < length b" by simp_all
    have r0: "length (dp ! i) = length b + 1" using dpShape_row [OF sh, of i] i by simp
    have r1: "length (dp ! (i + 1)) = length b + 1"
      using dpShape_row [OF sh, of "i + 1"] i by simp
    have n: "length dp = length a + 1" by (rule dpShape_rows [OF sh])
    show ?thesis
    proof (cases "tvalue (a ! i) = tvalue (b ! j)")
      case m: True
      with "1.IH"(1) [OF True m sh] i j show ?thesis
        by (subst lcsWalkChecked.simps, subst lcsWalk.simps) simp
    next
      case m: False
      show ?thesis
      proof (cases "dp ! (i + 1) ! j \<ge> dp ! i ! (j + 1)")
        case ge: True
        with "1.IH"(2) [OF True m ge sh] m i j r0 r1 n show ?thesis
          by (subst lcsWalkChecked.simps, subst lcsWalk.simps) simp
      next
        case ge: False
        with "1.IH"(3) [OF True m ge sh] m i j r0 r1 n show ?thesis
          by (subst lcsWalkChecked.simps, subst lcsWalk.simps) simp
      qed
    qed
  qed
qed

lemma lcsIndicesTokensChecked_ok:
  "lcsIndicesTokensChecked a b = Inr (lcsIndicesTokens a b)"
  unfolding lcsIndicesTokensChecked_def lcsIndicesTokens_def
  using dpTableChecked_ok [of a b] by (simp add: lcsWalkChecked_ok)

lemma levRowChecked_ok:
  assumes p: "length (fst rows) = length b + 1" and c: "length (snd rows) = length b + 1"
    and i: "1 \<le> i" "i \<le> length a"
  shows "levRowChecked a b rows i = Inr (levRow a b rows i) \<and>
         length (fst (levRow a b rows i)) = length b + 1 \<and>
         length (snd (levRow a b rows i)) = length b + 1"
proof -
  define prev where "prev = fst rows"
  define curr0 where "curr0 = (snd rows)[0 := i]"
  define ai where "ai = a ! (i - 1)"
  define stepC where "stepC = (\<lambda>curr j.
      andThen (numberAt b (j - 1)) (\<lambda>bj.
      andThen (numberAt prev j) (\<lambda>up.
      andThen (numberAt curr (j - 1)) (\<lambda>left.
      andThen (numberAt prev (j - 1)) (\<lambda>diag.
        storeAt curr j (min (min (up + 1) (left + 1)) (diag + (if ai = bj then 0 else 1))))))))"
  define step where "step = (\<lambda>curr j. curr[j := min (min (prev ! j + 1) (curr ! (j - 1) + 1))
      (prev ! (j - 1) + (if ai = b ! (j - 1) then 0 else (1::nat)))])"
  define curr where "curr = foldl step curr0 [1..<length b + 1]"
  define copyC where "copyC = (\<lambda>prev j. andThen (numberAt curr j) (\<lambda>v. storeAt prev j v))"
  define copy where "copy = (\<lambda>prev j. prev[j := curr ! j])"
  have lp: "length prev = length b + 1" using p by (simp add: prev_def)
  have l0: "length curr0 = length b + 1" using c by (simp add: curr0_def)
  have inner: "foldChecked stepC curr0 [1..<length b + 1] = Inr curr \<and>
      length curr = length b + 1"
    unfolding curr_def
  proof (rule foldChecked_refines [where I = "\<lambda>c. length c = length b + 1", OF _ l0])
    fix s :: "nat list" and j
    assume s: "length s = length b + 1" and "j \<in> set [1..<length b + 1]"
    then have j: "1 \<le> j" "j \<le> length b" by (simp_all del: upt_Suc)
    then show "stepC s j = Inr (step s j) \<and> length (step s j) = length b + 1"
      unfolding stepC_def step_def using s lp by simp
  qed
  then have lc: "length curr = length b + 1" by simp
  have outer: "foldChecked copyC prev [0..<length b + 1] =
      Inr (foldl copy prev [0..<length b + 1]) \<and>
      length (foldl copy prev [0..<length b + 1]) = length b + 1"
  proof (rule foldChecked_refines [where I = "\<lambda>c. length c = length b + 1", OF _ lp])
    fix s :: "nat list" and j
    assume s: "length s = length b + 1" and "j \<in> set [0..<length b + 1]"
    then have j: "j \<le> length b" by (simp del: upt_Suc)
    then show "copyC s j = Inr (copy s j) \<and> length (copy s j) = length b + 1"
      unfolding copyC_def copy_def using s lc by simp
  qed
  have plain: "levRow a b rows i = (foldl copy prev [0..<length b + 1], curr)"
    unfolding levRow_def Let_def curr_def step_def copy_def prev_def curr0_def ai_def ..
  have checked: "levRowChecked a b rows i =
      andThen (storeAt (snd rows) 0 i) (\<lambda>curr0.
      andThen (numberAt a (i - 1)) (\<lambda>ai.
      andThen (foldChecked (\<lambda>curr j.
                andThen (numberAt b (j - 1)) (\<lambda>bj.
                andThen (numberAt prev j) (\<lambda>up.
                andThen (numberAt curr (j - 1)) (\<lambda>left.
                andThen (numberAt prev (j - 1)) (\<lambda>diag.
                  storeAt curr j
                    (min (min (up + 1) (left + 1)) (diag + (if ai = bj then 0 else 1))))))))
              curr0 [1..<length b + 1]) (\<lambda>curr.
      andThen (foldChecked (\<lambda>prev j. andThen (numberAt curr j) (\<lambda>v. storeAt prev j v))
              prev [0..<length b + 1]) (\<lambda>prev.
        Inr (prev, curr)))))"
    unfolding levRowChecked_def prev_def ..
  have s0: "storeAt (snd rows) 0 i = Inr curr0" using c by (simp add: curr0_def)
  have s1: "numberAt a (i - 1) = Inr ai" using i by (simp add: ai_def)
  have "levRowChecked a b rows i = Inr (foldl copy prev [0..<length b + 1], curr)"
    unfolding checked s0 andThen_Inr s1
    unfolding stepC_def [symmetric]
    unfolding inner [THEN conjunct1] andThen_Inr
    unfolding copyC_def [symmetric]
    unfolding outer [THEN conjunct1] andThen_Inr ..
  with plain outer lc show ?thesis by simp
qed

lemma levenshteinChecked_ok: "levenshteinChecked a b = Inr (levenshtein a b)"
proof (cases "a = b \<or> length a = 0 \<or> length b = 0")
  case True
  then show ?thesis by (auto simp: levenshteinChecked_def levenshtein_def)
next
  case False
  define prev0 where
    "prev0 = foldl (\<lambda>prev j. prev[j := j]) (replicate (length b + 1) 0) [0..<length b + 1]"
  have init: "foldChecked (\<lambda>prev j. storeAt prev j j) (replicate (length b + 1) 0)
        [0..<length b + 1] = Inr prev0 \<and> length prev0 = length b + 1"
    unfolding prev0_def
  proof (rule foldChecked_refines [where I = "\<lambda>c. length c = length b + 1"])
    show "length (replicate (length b + 1) (0::nat)) = length b + 1" by simp
  next
    fix s :: "nat list" and j
    assume "length s = length b + 1" "j \<in> set [0..<length b + 1]"
    then have "j < length s" by (simp del: upt_Suc)
    then show "storeAt s j j = Inr (s[j := j]) \<and> length (s[j := j]) = length b + 1"
      using \<open>length s = length b + 1\<close> by simp
  qed
  have rows: "foldChecked (levRowChecked a b) (prev0, replicate (length b + 1) 0)
        [1..<length a + 1]
      = Inr (foldl (levRow a b) (prev0, replicate (length b + 1) 0) [1..<length a + 1]) \<and>
      (length (fst (foldl (levRow a b) (prev0, replicate (length b + 1) 0) [1..<length a + 1]))
         = length b + 1 \<and>
       length (snd (foldl (levRow a b) (prev0, replicate (length b + 1) 0) [1..<length a + 1]))
         = length b + 1)"
  proof (rule foldChecked_refines
      [where I = "\<lambda>r. length (fst r) = length b + 1 \<and> length (snd r) = length b + 1"])
    show "length (fst (prev0, replicate (length b + 1) (0::nat))) = length b + 1 \<and>
        length (snd (prev0, replicate (length b + 1) (0::nat))) = length b + 1"
      using init by simp
  next
    fix s :: "nat list \<times> nat list" and i
    assume s: "length (fst s) = length b + 1 \<and> length (snd s) = length b + 1"
      and "i \<in> set [1..<length a + 1]"
    then have i: "1 \<le> i" "i \<le> length a" by (simp_all del: upt_Suc)
    from levRowChecked_ok [OF s [THEN conjunct1] s [THEN conjunct2] i]
    show "levRowChecked a b s i = Inr (levRow a b s i) \<and>
        (length (fst (levRow a b s i)) = length b + 1 \<and>
         length (snd (levRow a b s i)) = length b + 1)" .
  qed
  have "levenshteinChecked a b =
      andThen (foldChecked (\<lambda>prev j. storeAt prev j j) (replicate (length b + 1) 0)
                  [0..<length b + 1]) (\<lambda>prev.
        andThen (foldChecked (levRowChecked a b) (prev, replicate (length b + 1) 0)
                  [1..<length a + 1]) (\<lambda>rows.
          numberAt (fst rows) (length b)))"
    using False unfolding levenshteinChecked_def by (simp del: upt_Suc replicate.simps)
  also have "\<dots> = numberAt (fst (foldl (levRow a b) (prev0, replicate (length b + 1) 0)
      [1..<length a + 1])) (length b)"
    unfolding init [THEN conjunct1] andThen_Inr rows [THEN conjunct1] ..
  also have "\<dots> = Inr (fst (foldl (levRow a b) (prev0, replicate (length b + 1) 0)
      [1..<length a + 1]) ! length b)"
    using rows by simp
  also have "\<dots> = Inr (levenshtein a b)"
    using False unfolding levenshtein_def Let_def prev0_def
    by (simp del: upt_Suc replicate.simps)
  finally show ?thesis .
qed

lemma classifyChangeChecked_ok:
  "classifyChangeChecked oldTokSlice newTokSlice oldSlice newSlice =
     Inr (classifyChange oldTokSlice newTokSlice oldSlice newSlice)"
proof -
  define ow where "ow = filter (\<lambda>t. tkind t = Word) oldTokSlice"
  define nw where "nw = filter (\<lambda>t. tkind t = Word) newTokSlice"
  define ins where "ins \<longleftrightarrow> length oldSlice = 0 \<and> length newSlice > 0"
  define del where "del \<longleftrightarrow> length newSlice = 0 \<and> length oldSlice > 0"
  define close where "close \<longleftrightarrow>
      (let d = levenshtein (tvalue (ow ! 0)) (tvalue (nw ! 0));
           maxLen = max (length (tvalue (ow ! 0))) (length (tvalue (nw ! 0)))
       in d > 0 \<and> d \<le> max 2 (ceil03 maxLen))"
  have plain: "classifyChange oldTokSlice newTokSlice oldSlice newSlice =
      (if ins then Insert else if del then Delete
       else if length ow = 1 \<and> length nw = 1 \<and> close then SpellCorrection else Replace)"
    unfolding classifyChange_def ow_def [symmetric] nw_def [symmetric] ins_def del_def close_def
    by (simp only: Let_def [of ow] Let_def [of nw])
  have checked: "classifyChangeChecked oldTokSlice newTokSlice oldSlice newSlice =
      (if ins then Inr Insert else if del then Inr Delete
       else if length ow = 1 \<and> length nw = 1
         then andThen (elementAt ow 0) (\<lambda>ow.
              andThen (elementAt nw 0) (\<lambda>nw.
              andThen (levenshteinChecked (tvalue ow) (tvalue nw)) (\<lambda>d.
                let maxLen = max (length (tvalue ow)) (length (tvalue nw))
                in if d > 0 \<and> d \<le> max 2 (ceil03 maxLen) then Inr SpellCorrection
                   else Inr Replace)))
       else Inr Replace)"
    unfolding classifyChangeChecked_def ow_def [symmetric] nw_def [symmetric] ins_def del_def
    by (simp only: Let_def [of ow] Let_def [of nw])
  have words: "andThen (elementAt ow 0) (\<lambda>ow.
              andThen (elementAt nw 0) (\<lambda>nw.
              andThen (levenshteinChecked (tvalue ow) (tvalue nw)) (\<lambda>d.
                let maxLen = max (length (tvalue ow)) (length (tvalue nw))
                in if d > 0 \<and> d \<le> max 2 (ceil03 maxLen) then Inr SpellCorrection
                   else Inr Replace)))
      = Inr (if close then SpellCorrection else Replace)"
    if l: "length ow = 1 \<and> length nw = 1"
  proof -
    from l have e: "elementAt ow 0 = Inr (ow ! 0)" "elementAt nw 0 = Inr (nw ! 0)" by simp_all
    show ?thesis
      unfolding e andThen_Inr levenshteinChecked_ok close_def Let_def
      by (rule if_distrib [symmetric])
  qed
  show ?thesis
  proof (cases "length ow = 1 \<and> length nw = 1")
    case True
    have "(if ins then Inr Insert else if del then Inr Delete
           else Inr (if close then SpellCorrection else Replace))
        = (Inr (if ins then Insert else if del then Delete
           else if close then SpellCorrection else Replace) :: ChangeType checked)"
      by (cases ins; cases del) simp_all
    then show ?thesis
      unfolding plain checked using True by (simp only: words [OF True] if_True simp_thms)
  next
    case False
    then have f: "(length ow = 1 \<and> length nw = 1 \<and> close) = False"
      "(length ow = 1 \<and> length nw = 1) = False" by auto
    have "(if ins then Inr Insert else if del then Inr Delete else Inr Replace)
        = (Inr (if ins then Insert else if del then Delete else Replace) :: ChangeType checked)"
      by (cases ins; cases del) simp_all
    then show ?thesis
      unfolding plain checked by (simp only: f if_False)
  qed
qed

lemma changesLoopChecked_ok:
  "changesLoopChecked False lcs oldLen newLen k prevOld prevNew =
     Inr (changesLoop lcs oldLen newLen k prevOld prevNew)"
proof (induction lcs oldLen newLen k prevOld prevNew rule: changesLoop.induct)
  case (1 lcs oldLen newLen k prevOld prevNew)
  show ?case
  proof (cases "k \<le> length lcs")
    case False
    then show ?thesis
      by (subst changesLoopChecked.simps, subst changesLoop.simps) simp
  next
    case True
    from "1.IH" [OF True refl refl refl] True show ?thesis
      by (subst changesLoopChecked.simps, subst changesLoop.simps) (simp add: Let_def)
  qed
qed

lemma onlySepsBetweenChecked_ok:
  "e \<le> length tokens \<Longrightarrow>
   onlySepsBetweenChecked tokens s e = Inr (onlySepsBetween tokens s e)"
  by (simp add: onlySepsBetweenChecked_def onlySepsBetween_def)

lemma mergeLoopChecked_ok:
  "(\<And>r. r \<in> set rest \<Longrightarrow> oldTokStart r \<le> length a \<and> newTokStart r \<le> length b) \<Longrightarrow>
   mergeLoopChecked False a b acc rest = Inr (mergeLoop a b acc rest)"
proof (induction rest arbitrary: acc)
  case Nil
  show ?case by simp
next
  case (Cons ch rest)
  have ch: "oldTokStart ch \<le> length a" "newTokStart ch \<le> length b"
    using Cons.prems [of ch] by simp_all
  have IH: "mergeLoopChecked False a b acc' rest = Inr (mergeLoop a b acc' rest)" for acc'
    by (rule Cons.IH) (simp add: Cons.prems)
  show ?case
    by (cases "js_last acc") (simp_all add: IH onlySepsBetweenChecked_ok ch)
qed

lemma boundary_le_length:
  assumes t: "tiles s 0 ts"
  shows "length (concat (map tvalue (take k ts))) \<le> length s"
proof -
  have "s = concat (map tvalue ts)" using tiles_concat [OF t] by simp
  also have "\<dots> = concat (map tvalue (take k ts)) @ concat (map tvalue (drop k ts))"
    by (metis append_take_drop_id concat_append map_append)
  finally have "length s = length (concat (map tvalue (take k ts)))
      + length (concat (map tvalue (drop k ts)))"
    by (metis length_append)
  then show ?thesis by simp
qed

lemma boundary_le:
  "k \<le> k' \<Longrightarrow>
   length (concat (map tvalue (take k ts))) \<le> length (concat (map tvalue (take k' ts)))"
proof -
  assume "k \<le> k'"
  then have "take k' ts = take k ts @ slice ts k k'" by (rule take_slice)
  then show ?thesis by simp
qed

lemma buildDiffChecked_ok:
  assumes t: "tiles s 0 a" and u: "tiles s' 0 b"
    and o: "oldTokStart ch \<le> oldTokEnd ch" "oldTokEnd ch \<le> length a"
    and n: "newTokStart ch \<le> newTokEnd ch" "newTokEnd ch \<le> length b"
  shows "buildDiffChecked s s' a b ch = Inr (buildDiff s s' a b ch)"
proof -
  define os oe ns ne where "os = oldTokStart ch" and "oe = oldTokEnd ch"
    and "ns = newTokStart ch" and "ne = newTokEnd ch"
  note d = os_def [symmetric] oe_def [symmetric] ns_def [symmetric] ne_def [symmetric]
  from o n have b: "os \<le> oe" "oe \<le> length a" "ns \<le> ne" "ne \<le> length b"
    by (simp_all add: os_def oe_def ns_def ne_def)
  define oldStart where "oldStart = (if oe > os then tstart (a ! os)
     else if os \<ge> 1 then tend (a ! (os - 1)) else 0)"
  define oldEnd where "oldEnd = (if oe > os then tend (a ! (oe - 1)) else oldStart)"
  define oldSlice where "oldSlice = sliceFromOriginal s oldStart oldEnd"
  define newSlice where "newSlice = (if ne > ns
      then sliceFromOriginal s' (tstart (b ! ns)) (tend (b ! (ne - 1))) else [])"
  have st: "oldStart = length (concat (map tvalue (take os a)))"
  proof (cases "oe > os")
    case True
    with tiles_offsets [OF t, of os] b show ?thesis by (simp add: oldStart_def)
  next
    case False
    show ?thesis
    proof (cases "os \<ge> 1")
      case True
      with tiles_offsets [OF t, of "os - 1"] b False show ?thesis
        by (simp add: oldStart_def)
    next
      case z: False
      then have "os = 0" by simp
      with False show ?thesis by (simp add: oldStart_def)
    qed
  qed
  have en: "oldEnd = length (concat (map tvalue (take oe a)))"
  proof (cases "oe > os")
    case True
    with tiles_offsets [OF t, of "oe - 1"] b show ?thesis by (simp add: oldEnd_def)
  next
    case False
    with b have "oe = os" by simp
    with False st show ?thesis by (simp add: oldEnd_def)
  qed
  have offs: "(if oe > os
            then andThen (elementAt a os) (\<lambda>first.
                 andThen (elementAt a (oe - 1)) (\<lambda>final.
                   Inr (tstart first, tend final)))
            else if os \<ge> 1
              then andThen (elementAt a (os - 1)) (\<lambda>left. Inr (tend left, tend left))
            else Inr (0, 0)) = Inr (oldStart, oldEnd)"
    using b by (simp add: oldStart_def oldEnd_def)
  have osl: "sliceChecked s oldStart oldEnd = Inr oldSlice"
    unfolding oldSlice_def sliceFromOriginal_def st en
    using boundary_le [OF b(1), of a] boundary_le_length [OF t, of oe] by simp
  have nsl: "(if ne > ns
            then andThen (elementAt b ns) (\<lambda>first.
                 andThen (elementAt b (ne - 1)) (\<lambda>final.
                   sliceChecked s' (tstart first) (tend final)))
            else Inr []) = Inr newSlice"
  proof (cases "ne > ns")
    case False
    then show ?thesis by (simp add: newSlice_def)
  next
    case True
    have s1: "tstart (b ! ns) = length (concat (map tvalue (take ns b)))"
      using tiles_offsets [OF u, of ns] b True by simp
    have s2: "tend (b ! (ne - 1)) = length (concat (map tvalue (take ne b)))"
      using tiles_offsets [OF u, of "ne - 1"] b True by simp
    have "sliceChecked s' (tstart (b ! ns)) (tend (b ! (ne - 1)))
        = Inr (slice s' (tstart (b ! ns)) (tend (b ! (ne - 1))))"
      unfolding s1 s2
      using boundary_le [OF b(3), of b] boundary_le_length [OF u, of ne] by simp
    with True b show ?thesis by (simp add: newSlice_def sliceFromOriginal_def)
  qed
  have tsl: "sliceChecked a os oe = Inr (slice a os oe)" "sliceChecked b ns ne = Inr (slice b ns ne)"
    using b by simp_all
  have plain: "buildDiff s s' a b ch =
      (if oldSlice = newSlice then None
       else Some \<lparr>oldText = oldSlice, position = \<lparr>startIndex = oldStart, endIndex = oldEnd\<rparr>,
                  newText = newSlice,
                  changeType = classifyChange (slice a os oe) (slice b ns ne) oldSlice newSlice\<rparr>)"
    unfolding buildDiff_def d Let_def oldSlice_def newSlice_def oldEnd_def oldStart_def ..
  have checked: "buildDiffChecked s s' a b ch =
      andThen (if oe > os
            then andThen (elementAt a os) (\<lambda>first.
                 andThen (elementAt a (oe - 1)) (\<lambda>final.
                   Inr (tstart first, tend final)))
            else if os \<ge> 1
              then andThen (elementAt a (os - 1)) (\<lambda>left. Inr (tend left, tend left))
            else Inr (0, 0)) (\<lambda>(oldStart, oldEnd).
         andThen (sliceChecked s oldStart oldEnd) (\<lambda>oldSlice.
         andThen
           (if ne > ns
            then andThen (elementAt b ns) (\<lambda>first.
                 andThen (elementAt b (ne - 1)) (\<lambda>final.
                   sliceChecked s' (tstart first) (tend final)))
            else Inr []) (\<lambda>newSlice.
           if oldSlice = newSlice then Inr None
           else andThen (sliceChecked a os oe) (\<lambda>oldTokSlice.
                andThen (sliceChecked b ns ne) (\<lambda>newTokSlice.
                andThen (classifyChangeChecked oldTokSlice newTokSlice oldSlice newSlice)
                  (\<lambda>changeType.
                  Inr (Some \<lparr>oldText = oldSlice,
                             position = \<lparr>startIndex = oldStart, endIndex = oldEnd\<rparr>,
                             newText = newSlice,
                             changeType = changeType\<rparr>)))))))"
    unfolding buildDiffChecked_def d Let_def ..
  show ?thesis
    unfolding checked offs andThen_Inr prod.case osl nsl tsl classifyChangeChecked_ok plain
    by (rule if_distrib [symmetric, THEN trans]) simp
qed

lemma diffLoopChecked_ok:
  assumes t: "tiles s 0 a" and u: "tiles s' 0 b"
  shows "(\<And>r. r \<in> set rs \<Longrightarrow>
           oldTokStart r \<le> oldTokEnd r \<and> oldTokEnd r \<le> length a \<and>
           newTokStart r \<le> newTokEnd r \<and> newTokEnd r \<le> length b) \<Longrightarrow>
         diffLoopChecked s s' a b rs = Inr (diffLoop s s' a b rs)"
proof (induction rs)
  case Nil
  show ?case by simp
next
  case (Cons r rs)
  have r: "oldTokStart r \<le> oldTokEnd r" "oldTokEnd r \<le> length a"
    "newTokStart r \<le> newTokEnd r" "newTokEnd r \<le> length b"
    using Cons.prems [of r] by simp_all
  have IH: "diffLoopChecked s s' a b rs = Inr (diffLoop s s' a b rs)"
    by (rule Cons.IH) (simp add: Cons.prems)
  show ?case
    by (simp add: buildDiffChecked_ok [OF t u r] IH split: option.splits)
qed

lemma regexTokensChecked_ok:
  "regexTokensChecked isLNM s i = Inr (regexTokens isLNM s i)"
proof (induction isLNM s i rule: regexTokens.induct)
  case (1 isLNM normalized lastIndex)
  show ?case
  proof (cases "WORD_REGEX_exec isLNM normalized lastIndex")
    case None
    then show ?thesis
      by (subst regexTokensChecked.simps, subst regexTokens.simps) simp
  next
    case (Some m)
    obtain idx len where m: "m = (idx, len)" by (cases m)
    from WORD_REGEX_exec_bounds [OF Some [unfolded m]]
    have b: "idx + len \<le> length normalized" by simp
    from "1.IH" [OF Some m [symmetric] refl refl refl refl]
    have "regexTokensChecked isLNM normalized (idx + len)
        = Inr (regexTokens isLNM normalized (idx + len))" .
    with Some m b show ?thesis
      by (subst regexTokensChecked.simps, subst regexTokens.simps) (simp add: Let_def)
  qed
qed

lemma segmentTokensChecked_ok:
  "segmentsOk s c gs \<Longrightarrow> c \<le> length s \<Longrightarrow>
   segmentTokensChecked isLNM s gs c = Inr (segmentTokens isLNM s gs c)"
proof (induction gs arbitrary: c)
  case Nil
  then show ?case by simp
next
  case (Cons g gs)
  from Cons.prems have g: "c \<le> index g" "index g + length (segment g) \<le> length s"
    "segmentsOk s (index g + length (segment g)) gs" by simp_all
  have rest: "segmentTokensChecked isLNM s gs (index g + length (segment g))
      = Inr (segmentTokens isLNM s gs (index g + length (segment g)))"
    by (rule Cons.IH [OF g(3) g(2)])
  have "index g \<le> length s" using g(2) by simp
  with g(1) rest show ?case by (simp add: Let_def)
qed

lemma tokenizeChecked_ok:
  "segmenterOk segmenter (normalize nfc text) \<Longrightarrow>
   tokenizeChecked nfc isLNM segmenter text = Inr (tokenize nfc isLNM segmenter text)"
  unfolding tokenizeChecked_def tokenize_def Let_def segmenterOk_def
  by (auto split: option.splits simp: regexTokensChecked_ok segmentTokensChecked_ok)

text \<open>Claim C10, as stated, fails at the two reads that the code makes outside an array on
  purpose: with every read outside an array counted, the run on \<^verbatim>\<open>"a"\<close> and \<^verbatim>\<open>"b"\<close> stops
  at \<^verbatim>\<open>lcs[0]\<close> of the empty alignment.\<close>

theorem sentinel_read_out_of_bounds:
  "getTextDiffsChecked True nfcAscii asciiLNM noSegmenter (ascii ''a'') (ascii ''b'')
     = Inl OutOfBounds"
  by code_simp

text \<open>
  Claim C10, amended. \<^verbatim>\<open>getTextDiffs\<close> is total on all pairs of strings, the empty string
  included: with the engine's guarantees (idempotent normalisation, a segmenter that is
  absent or returns in-order substrings) no execution raises an exception, and every
  access to a token array, a string, a row or cell of the table, and a row of the edit
  distance is within bounds. The only reads outside an array are the two whose
  \<^verbatim>\<open>undefined\<close> result the code tests: \<^verbatim>\<open>lcs[lcs.length]\<close> in the last pass of the range
  extraction and \<^verbatim>\<open>mergedChanges[-1]\<close> while the merged list is empty.
\<close>

theorem getTextDiffs_accesses_in_bounds:
  assumes idem: "\<forall>s. nfc (nfc s) = nfc s"
    and okx: "segmenterOk segmenter (nfc x)" and oky: "segmenterOk segmenter (nfc y)"
  shows "getTextDiffsChecked False nfc isLNM segmenter x y
           = Inr (getTextDiffs nfc isLNM segmenter x y)"
proof (cases "nfc x = nfc y")
  case True
  then show ?thesis
    by (simp add: getTextDiffsChecked_def getTextDiffs_def normalize_def)
next
  case False
  define a where "a = tokenize nfc isLNM segmenter (nfc x)"
  define b where "b = tokenize nfc isLNM segmenter (nfc y)"
  define changes where "changes = changesLoop (lcsIndicesTokens a b) (length a) (length b) 0 0 0"
  have t: "tiles (nfc x) 0 a"
    unfolding a_def using idem okx by (intro tokenize_tiles_normalized) simp_all
  have u: "tiles (nfc y) 0 b"
    unfolding b_def using idem oky by (intro tokenize_tiles_normalized) simp_all
  have cc: "chain a b 0 0 changes"
    unfolding changes_def
    by (rule changesLoop_chain) (simp_all add: lcsIndicesTokens_pairsFrom)
  have m: "mergeLoopChecked False a b [] changes = Inr (mergedChangesOf a b)"
    unfolding mergedChangesOf_def Let_def changes_def [symmetric]
  proof (rule mergeLoopChecked_ok)
    fix r assume "r \<in> set changes"
    from chain_bounds [OF cc this]
    show "oldTokStart r \<le> length a \<and> newTokStart r \<le> length b" by simp
  qed
  have dl: "diffLoopChecked (nfc x) (nfc y) a b (mergedChangesOf a b)
      = Inr (diffLoop (nfc x) (nfc y) a b (mergedChangesOf a b))"
  proof (rule diffLoopChecked_ok [OF t u])
    fix r assume "r \<in> set (mergedChangesOf a b)"
    from chain_bounds [OF mergedChangesOf_chain this]
    show "oldTokStart r \<le> oldTokEnd r \<and> oldTokEnd r \<le> length a \<and>
        newTokStart r \<le> newTokEnd r \<and> newTokEnd r \<le> length b" by simp
  qed
  have ta: "tokenizeChecked nfc isLNM segmenter (nfc x) = Inr a"
    unfolding a_def using idem okx by (intro tokenizeChecked_ok) (simp add: normalize_def)
  have tb: "tokenizeChecked nfc isLNM segmenter (nfc y) = Inr b"
    unfolding b_def using idem oky by (intro tokenizeChecked_ok) (simp add: normalize_def)
  have "getTextDiffsChecked False nfc isLNM segmenter x y =
      andThen (lcsIndicesTokensChecked a b) (\<lambda>lcs.
      andThen (changesLoopChecked False lcs (length a) (length b) 0 0 0) (\<lambda>changes.
      andThen (mergeLoopChecked False a b [] changes) (\<lambda>mergedChanges.
        diffLoopChecked (nfc x) (nfc y) a b mergedChanges)))"
    using False unfolding getTextDiffsChecked_def normalize_def Let_def ta tb by simp
  also have "\<dots> = Inr (diffLoop (nfc x) (nfc y) a b (mergedChangesOf a b))"
    unfolding lcsIndicesTokensChecked_ok andThen_Inr changesLoopChecked_ok
      changes_def [symmetric] m dl ..
  also have "\<dots> = Inr (getTextDiffs nfc isLNM segmenter x y)"
    using False unfolding getTextDiffs_def normalize_def Let_def a_def b_def by simp
  finally show ?thesis .
qed

lemma empty_new:
  "getTextDiffsChecked False nfcAscii asciiLNM noSegmenter (ascii '''') (ascii ''new'') =
     Inr [\<lparr>oldText = [], position = \<lparr>startIndex = 0, endIndex = 0\<rparr>,
           newText = ascii ''new'', changeType = Insert\<rparr>]"
  by code_simp

lemma words_only_diff:
  "getTextDiffsChecked False nfcAscii asciiLNM wordsOnlySegmenter (ascii ''a, b!'') (ascii ''a b!'')
     = Inr [\<lparr>oldText = ascii '', '', position = \<lparr>startIndex = 1, endIndex = 3\<rparr>,
             newText = ascii '' '', changeType = Replace\<rparr>]"
  by code_simp

lemma words_only_ok_old: "segmenterOk wordsOnlySegmenter (nfcAscii (ascii ''a, b!''))"
  by code_simp

lemma words_only_ok_new: "segmenterOk wordsOnlySegmenter (nfcAscii (ascii ''a b!''))"
  by code_simp

theorem getTextDiffs_accesses_in_bounds_witness:
  "Inr (getTextDiffs nfcAscii asciiLNM noSegmenter (ascii '''') (ascii ''new'')) =
     (Inr [\<lparr>oldText = [], position = \<lparr>startIndex = 0, endIndex = 0\<rparr>,
            newText = ascii ''new'', changeType = Insert\<rparr>] :: TextDiff list checked) \<and>
   getTextDiffsChecked False nfcAscii asciiLNM commaSegmenter (ascii ''a, b'') (ascii ''a b'')
     = Inr (getTextDiffs nfcAscii asciiLNM commaSegmenter (ascii ''a, b'') (ascii ''a b'')) \<and>
   Inr (getTextDiffs nfcAscii asciiLNM wordsOnlySegmenter (ascii ''a, b!'') (ascii ''a b!'')) =
     (Inr [\<lparr>oldText = ascii '', '', position = \<lparr>startIndex = 1, endIndex = 3\<rparr>,
            newText = ascii '' '', changeType = Replace\<rparr>] :: TextDiff list checked)"
proof -
  have i: "\<forall>s. nfcAscii (nfcAscii s) = nfcAscii s" by (simp add: nfcAscii_def)
  have o: "segmenterOk noSegmenter s" for s by (simp add: segmenterOk_def noSegmenter_def)
  have c: "segmenterOk commaSegmenter (nfcAscii (ascii ''a, b''))"
    using comma_segmenterOk by (simp add: normalize_def)
  have c': "segmenterOk commaSegmenter (nfcAscii (ascii ''a b''))"
    by (simp add: segmenterOk_def commaSegmenter_def nfcAscii_def ascii_def)
  from getTextDiffs_accesses_in_bounds
      [where nfc = nfcAscii and segmenter = noSegmenter and isLNM = asciiLNM
         and x = "ascii ''''" and y = "ascii ''new''", OF i o o]
    getTextDiffs_accesses_in_bounds
      [where nfc = nfcAscii and segmenter = commaSegmenter and isLNM = asciiLNM
         and x = "ascii ''a, b''" and y = "ascii ''a b''", OF i c c']
    getTextDiffs_accesses_in_bounds
      [where nfc = nfcAscii and segmenter = wordsOnlySegmenter and isLNM = asciiLNM
         and x = "ascii ''a, b!''" and y = "ascii ''a b!''",
       OF i words_only_ok_old words_only_ok_new]
  show ?thesis by (simp only: empty_new words_only_diff simp_thms)
qed

end
